theory Spec2Isabelle
  imports Complex_Main "HOL-Library.Word"
begin

unbundle bit_operations_syntax

section \<open>Faults\<close>

text \<open>
  Every way in which the C++ leaves defined behaviour, or aborts, is a value of
  \<open>fault\<close>; an operation that may do so returns \<open>fault + 'a\<close>. A loop that may run
  forever returns an \<open>option\<close> around that, \<open>None\<close> meaning that it never returns.
\<close>

datatype fault =
    OutOfBounds       \<comment> \<open>memcpy, memset or a read outside the array\<close>
  | Overlap           \<comment> \<open>memcpy between partially overlapping regions\<close>
  | BadArrayLength    \<comment> \<open>new char[n] with negative n\<close>
  | IntOutOfRange     \<comment> \<open>a double converted to int outside the range of int\<close>
  | DivideByZero      \<comment> \<open>integer division or remainder by zero\<close>
  | IndexOutOfRange   \<comment> \<open>QVector::at outside the vector\<close>
  | NullPointer       \<comment> \<open>a call through a null pointer\<close>
  | IntOverflow       \<comment> \<open>the quotient of the least int by -1\<close>
  | AssertionFailed   \<comment> \<open>a Q_ASSERT that fails in a build with assertions\<close>

type_synonym byte = "8 word"

section \<open>Byte arrays\<close>

text \<open>Reading \<open>n\<close> bytes at offset \<open>off\<close> of an array (the source side of a memcpy).\<close>

definition read_bytes :: "byte list \<Rightarrow> int \<Rightarrow> int \<Rightarrow> fault + byte list" where
  "read_bytes buf off n =
     (if n < 0 \<or> off < 0 \<or> int (length buf) < off + n then Inl OutOfBounds
      else Inr (take (nat n) (drop (nat off) buf)))"

text \<open>Writing the bytes \<open>src\<close> at offset \<open>off\<close> of an array (the destination side).\<close>

definition write_bytes :: "byte list \<Rightarrow> int \<Rightarrow> byte list \<Rightarrow> fault + byte list" where
  "write_bytes buf off src =
     (if off < 0 \<or> int (length buf) < off + int (length src) then Inl OutOfBounds
      else Inr (take (nat off) buf @ src @ drop (nat off + length src) buf))"

section \<open>AudioRenderWorker: reversing a sample buffer\<close>

text \<open>
  The body of the reversal loop of \<open>AudioRenderWorker::RenderBlock\<close>: three memcpys that
  swap the sample at \<open>src_index\<close> with the sample at \<open>dst_index\<close> through the scratch
  buffer. The second memcpy copies inside one array: its regions must not overlap, except
  that copying a region onto itself leaves it as it is.
\<close>

definition swap_sample :: "int \<Rightarrow> byte list \<Rightarrow> int \<Rightarrow> int \<Rightarrow> fault + byte list" where
  "swap_sample sample_size buf src_index dst_index =
     (case read_bytes buf src_index sample_size of
        Inl e \<Rightarrow> Inl e
      | Inr temp_buffer \<Rightarrow>
          (case read_bytes buf dst_index sample_size of
             Inl e \<Rightarrow> Inl e
           | Inr dst_bytes \<Rightarrow>
               if src_index \<noteq> dst_index \<and> \<bar>src_index - dst_index\<bar> < sample_size
               then Inl Overlap
               else (case write_bytes buf src_index dst_bytes of
                       Inl e \<Rightarrow> Inl e
                     | Inr buf' \<Rightarrow> write_bytes buf' dst_index temp_buffer)))"

text \<open>
  \<open>for (int src_index=0; src_index<half_buffer_sz; src_index+=sample_size)\<close>. The loop
  never ends when \<open>sample_size\<close> is 0 and the buffer has two bytes or more. The
  indices stay below the size of the array, an int, so int arithmetic does not wrap.
\<close>

partial_function (option) reverse_loop ::
  "int \<Rightarrow> int \<Rightarrow> int \<Rightarrow> byte list \<Rightarrow> (fault + byte list) option" where
  "reverse_loop sample_size half_buffer_sz src_index buf =
     (if src_index < half_buffer_sz then
        (case swap_sample sample_size buf src_index
                (int (length buf) - sample_size - src_index) of
           Inl e \<Rightarrow> Some (Inl e)
         | Inr buf' \<Rightarrow> reverse_loop sample_size half_buffer_sz (src_index + sample_size) buf')
      else Some (Inr buf))"

text \<open>The branch \<open>if (b->is_reversed())\<close>, with \<open>sample_size = samples_to_bytes(1)\<close>.\<close>

definition reverse_samples :: "int \<Rightarrow> byte list \<Rightarrow> (fault + byte list) option" where
  "reverse_samples sample_size buf =
     (if sample_size < 0 then Some (Inl BadArrayLength)
      else reverse_loop sample_size (int (length buf) div 2) 0 buf)"

text \<open>The list of the samples of a buffer, and the buffer with its samples in reverse order.\<close>

fun chunks :: "nat \<Rightarrow> 'a list \<Rightarrow> 'a list list" where
  "chunks n xs = (if n = 0 \<or> xs = [] then [] else take n xs # chunks n (drop n xs))"

definition rev_chunks :: "nat \<Rightarrow> 'a list \<Rightarrow> 'a list" where
  "rev_chunks n xs = concat (rev (chunks n xs))"

section \<open>Double-precision arithmetic\<close>

text \<open>
  A finite double is modelled by the rational number it denotes. An operation on doubles
  is the exact operation followed by \<open>dbl_round\<close>: rounding to the nearest number with
  a significand of 53 bits, ties going to the even significand (the default rounding of
  IEEE 754 binary64). The range of the exponent is not modelled: the values below come
  from 64-bit integers and their quotients, far from overflow and from subnormal numbers.
\<close>

text \<open>The number of bits of a positive integer.\<close>

function bitlen :: "int \<Rightarrow> int" where
  "bitlen n = (if n \<le> 0 then 0 else 1 + bitlen (n div 2))"
  by pat_completeness auto
termination
  by (relation "measure nat") auto

definition pow2 :: "int \<Rightarrow> rat" where
  "pow2 e = (if 0 \<le> e then 2 ^ nat e else 1 / 2 ^ nat (- e))"

definition round_half_even :: "rat \<Rightarrow> int" where
  "round_half_even x =
     (let f = \<lfloor>x\<rfloor>; d = x - of_int f
      in if d < 1 / 2 then f
         else if 1 / 2 < d then f + 1
         else if even f then f else f + 1)"

text \<open>
  With \<open>p / q\<close> the fraction in lowest terms, \<open>p\<close> of \<open>a\<close> bits and \<open>q\<close> of \<open>b\<close> bits,
  \<open>p / q\<close> lies strictly between \<open>2 ^ (a - b - 1)\<close> and \<open>2 ^ (a - b + 1)\<close>; the exponent
  \<open>e\<close> is the one for which \<open>p / q / 2 ^ e\<close> lies in \<open>[2 ^ 52, 2 ^ 53)\<close>.
\<close>

definition dbl_round :: "rat \<Rightarrow> rat" where
  "dbl_round x =
     (if x = 0 then 0
      else
        let a = \<bar>x\<bar>;
            p = fst (quotient_of a);
            q = snd (quotient_of a);
            e0 = bitlen p - bitlen q - 53;
            e = (if a / pow2 e0 < 2 ^ 53 then e0 else e0 + 1)
        in sgn x * of_int (round_half_even (a / pow2 e)) * pow2 e)"

definition dbl_of_int :: "int \<Rightarrow> rat" where
  "dbl_of_int n = dbl_round (of_int n)"

definition dbl_add :: "rat \<Rightarrow> rat \<Rightarrow> rat" where
  "dbl_add x y = dbl_round (x + y)"

definition dbl_mul :: "rat \<Rightarrow> rat \<Rightarrow> rat" where
  "dbl_mul x y = dbl_round (x * y)"

definition dbl_div :: "rat \<Rightarrow> rat \<Rightarrow> rat" where
  "dbl_div x y = dbl_round (x / y)"

text \<open>
  Qt's \<open>qFloor\<close>: \<open>int(floor(v))\<close>. The conversion of a double to int is undefined
  outside the range of a 32-bit int.
\<close>

definition qFloor :: "rat \<Rightarrow> fault + int" where
  "qFloor v =
     (let f = \<lfloor>v\<rfloor>
      in if - (2 ^ 31) \<le> f \<and> f < 2 ^ 31 then Inr f else Inl IntOutOfRange)"

section \<open>Rational time\<close>

text \<open>
  Modelled from the spec: the class \<open>rational\<close> is not part of these sources. The spec
  describes it as an exact rational number (numerator and denominator) with comparison,
  addition and a conversion to floating point; it is the type \<open>rat\<close>, in lowest terms
  with a positive denominator, and \<open>toDouble\<close> divides the numerator by the
  denominator, both converted to double.
\<close>

definition numerator :: "rat \<Rightarrow> int" where
  "numerator r = fst (quotient_of r)"

definition denominator :: "rat \<Rightarrow> int" where
  "denominator r = snd (quotient_of r)"

definition toDouble :: "rat \<Rightarrow> rat" where
  "toDouble r = dbl_div (dbl_of_int (numerator r)) (dbl_of_int (denominator r))"

definition isNull :: "rat \<Rightarrow> bool" where
  "isNull r = (numerator r = 0)"

section \<open>AudioRenderWorker::RenderBlock\<close>

text \<open>
  Qt's \<open>QByteArray::mid(pos, len)\<close>: the bytes from \<open>pos\<close> on, at most \<open>len\<close> of them; a
  negative \<open>len\<close>, or one past the end, means all the bytes up to the end.
\<close>

definition mid :: "byte list \<Rightarrow> int \<Rightarrow> int \<Rightarrow> byte list" where
  "mid xs pos len =
     (let n = int (length xs)
      in if n < pos then []
         else if pos < 0 then
           (if len < 0 \<or> n \<le> len + pos then xs
            else if len + pos \<le> 0 then []
            else take (nat (len + pos)) xs)
         else
           (let len' = (if len < 0 \<or> n - pos < len then n - pos else len)
            in take (nat len') (drop (nat pos) xs)))"

text \<open>
  The class \<open>AudioRenderingParams\<close> is not part of these sources: its three conversions
  are parameters of the model.
\<close>

record AudioRenderingParams =
  time_to_bytes :: "rat \<Rightarrow> int"
  bytes_to_samples :: "int \<Rightarrow> int"
  samples_to_bytes :: "int \<Rightarrow> int"

text \<open>What \<open>RenderBlock\<close> reads of a \<open>Block\<close>; \<open>block_speed\<close> is a double.\<close>

record Block =
  block_in :: rat
  block_out :: rat
  block_length :: rat
  block_media_length :: rat
  block_speed :: rat
  block_is_reversed :: bool

record TimeRange =
  range_in :: rat
  range_out :: rat

definition range_length :: "TimeRange \<Rightarrow> rat" where
  "range_length r = range_out r - range_in r"

text \<open>
  Modelled from the spec: \<open>TrackOutput::BlocksAtTimeRange\<close> is not part of these sources;
  the spec has it return the blocks of the track that overlap the range.
\<close>

definition BlocksAtTimeRange :: "Block list \<Rightarrow> TimeRange \<Rightarrow> Block list" where
  "BlocksAtTimeRange track rng =
     filter (\<lambda>b. range_in rng < block_out b \<and> block_in b < range_out rng) track"

text \<open>
  Modelled from the spec: \<open>NodeValueTable\<close> is not part of these sources. A table is the
  list of its typed values, the last pushed last; \<open>Take\<close> removes the most recent value of
  a type and returns it, or returns a null variant, whose \<open>toByteArray\<close> is empty.
\<close>

datatype DataType = kSamples | kTexture | kOther nat

record RenderTexture =
  tex_width :: int
  tex_height :: int
  tex_format :: int
  tex_pixels :: "byte list"

datatype QVariant = VNull | VInt int | VByteArray "byte list" | VTexture RenderTexture | VOther nat

type_synonym NodeValueTable = "(DataType \<times> QVariant) list"

fun take_first :: "DataType \<Rightarrow> NodeValueTable \<Rightarrow> QVariant \<times> NodeValueTable" where
  "take_first ty [] = (VNull, [])"
| "take_first ty ((t, v) # rest) =
     (if t = ty then (v, rest)
      else (fst (take_first ty rest), (t, v) # snd (take_first ty rest)))"

definition Take :: "NodeValueTable \<Rightarrow> DataType \<Rightarrow> QVariant \<times> NodeValueTable" where
  "Take table ty = (fst (take_first ty (rev table)), rev (snd (take_first ty (rev table))))"

definition Get :: "NodeValueTable \<Rightarrow> DataType \<Rightarrow> QVariant" where
  "Get table ty = fst (Take table ty)"

definition Push :: "NodeValueTable \<Rightarrow> DataType \<Rightarrow> QVariant \<Rightarrow> NodeValueTable" where
  "Push table ty v = table @ [(ty, v)]"

fun toByteArray :: "QVariant \<Rightarrow> byte list" where
  "toByteArray (VByteArray bs) = bs"
| "toByteArray _ = []"

text \<open>
  The speed loop: \<open>for (double i=0; i<sample_count; i+=clip_speed)\<close>, appending the
  sample at index \<open>qFloor(i)\<close>. It never ends when the speed is zero or negative.
\<close>

partial_function (option) speed_loop ::
  "AudioRenderingParams \<Rightarrow> byte list \<Rightarrow> rat \<Rightarrow> int \<Rightarrow> rat \<Rightarrow> byte list
     \<Rightarrow> (fault + byte list) option" where
  "speed_loop p samples clip_speed sample_count i speed_adjusted_samples =
     (if i < of_int sample_count then
        (case qFloor i of
           Inl e \<Rightarrow> Some (Inl e)
         | Inr sample_index \<Rightarrow>
             speed_loop p samples clip_speed sample_count (dbl_add i clip_speed)
               (speed_adjusted_samples
                  @ mid samples (samples_to_bytes p sample_index) (samples_to_bytes p 1)))
      else Some (Inr speed_adjusted_samples))"

text \<open>The branch \<open>if (b->media_length() != b->length())\<close>.\<close>

definition stretch_samples ::
  "AudioRenderingParams \<Rightarrow> Block \<Rightarrow> byte list \<Rightarrow> (fault + byte list) option" where
  "stretch_samples p b samples =
     (if block_media_length b \<noteq> block_length b then
        speed_loop p samples (block_speed b) (bytes_to_samples p (int (length samples))) 0 []
      else Some (Inr samples))"

text \<open>
  \<open>memcpy(block_range_buffer.data()+destination_offset, samples.data(), copied_size)\<close>;
  copying no byte is harmless wherever the pointers point.
\<close>

definition copy_samples :: "byte list \<Rightarrow> int \<Rightarrow> byte list \<Rightarrow> fault + byte list" where
  "copy_samples buf destination_offset samples =
     (if samples = [] then Inr buf else write_bytes buf destination_offset samples)"

text \<open>
  The branch \<open>if (!samples_from_this_block.isEmpty())\<close>: speed adjustment, reversal and
  the copy into the buffer of the range. The result is \<open>copied_size\<close> and the buffer.
\<close>

definition place_samples ::
  "AudioRenderingParams \<Rightarrow> Block \<Rightarrow> byte list \<Rightarrow> int \<Rightarrow> byte list
     \<Rightarrow> (fault + int \<times> byte list) option" where
  "place_samples p b samples destination_offset buf =
     (case stretch_samples p b samples of
        None \<Rightarrow> None
      | Some (Inl e) \<Rightarrow> Some (Inl e)
      | Some (Inr stretched) \<Rightarrow>
          (case (if block_is_reversed b then reverse_samples (samples_to_bytes p 1) stretched
                 else Some (Inr stretched)) of
             None \<Rightarrow> None
           | Some (Inl e) \<Rightarrow> Some (Inl e)
           | Some (Inr reversed) \<Rightarrow>
               (case copy_samples buf destination_offset reversed of
                  Inl e \<Rightarrow> Some (Inl e)
                | Inr buf' \<Rightarrow> Some (Inr (int (length reversed), buf')))))"

text \<open>
  One round of \<open>foreach (Block* b, active_blocks)\<close>. \<open>ProcessNode\<close>, the evaluation of
  the node graph, is a parameter. The value of \<open>NodeValueTable::Merge\<close> is dropped by
  the code, so the round leaves \<open>merged_table\<close> as it is and only the buffer changes.
\<close>

definition render_one ::
  "AudioRenderingParams \<Rightarrow> (Block \<Rightarrow> TimeRange \<Rightarrow> NodeValueTable) \<Rightarrow> TimeRange
     \<Rightarrow> Block \<Rightarrow> byte list \<Rightarrow> (fault + byte list) option" where
  "render_one p ProcessNode rng b buf =
     (let range_for_block =
            \<lparr>range_in = max (block_in b) (range_in rng),
             range_out = min (block_out b) (range_out rng)\<rparr>;
          table = ProcessNode b range_for_block;
          samples_from_this_block = toByteArray (fst (Take table kSamples));
          destination_offset = time_to_bytes p (range_in range_for_block - range_in rng);
          maximum_copy_size = time_to_bytes p (range_length range_for_block)
      in case (if samples_from_this_block \<noteq> []
               then place_samples p b samples_from_this_block destination_offset buf
               else Some (Inr (0, buf))) of
           None \<Rightarrow> None
         | Some (Inl e) \<Rightarrow> Some (Inl e)
         | Some (Inr (copied_size, buf')) \<Rightarrow>
             if copied_size < maximum_copy_size then
               (case write_bytes buf' (destination_offset + copied_size)
                       (replicate (nat (maximum_copy_size - copied_size)) 0) of
                  Inl e \<Rightarrow> Some (Inl e)
                | Inr buf'' \<Rightarrow> Some (Inr buf''))
             else Some (Inr buf'))"

fun render_blocks ::
  "AudioRenderingParams \<Rightarrow> (Block \<Rightarrow> TimeRange \<Rightarrow> NodeValueTable) \<Rightarrow> TimeRange
     \<Rightarrow> Block list \<Rightarrow> byte list \<Rightarrow> (fault + byte list) option" where
  "render_blocks p ProcessNode rng [] buf = Some (Inr buf)"
| "render_blocks p ProcessNode rng (b # bs) buf =
     (case render_one p ProcessNode rng b buf of
        None \<Rightarrow> None
      | Some (Inl e) \<Rightarrow> Some (Inl e)
      | Some (Inr buf') \<Rightarrow> render_blocks p ProcessNode rng bs buf')"

text \<open>
  \<open>AudioRenderWorker::RenderBlock\<close>. \<open>QByteArray(size, 0)\<close> is empty for a size that is
  not positive.
\<close>

definition RenderBlock ::
  "AudioRenderingParams \<Rightarrow> (Block \<Rightarrow> TimeRange \<Rightarrow> NodeValueTable) \<Rightarrow> Block list
     \<Rightarrow> TimeRange \<Rightarrow> (fault + NodeValueTable) option" where
  "RenderBlock audio_params ProcessNode track rng =
     (let active_blocks = BlocksAtTimeRange track rng;
          block_range_buffer = replicate (nat (time_to_bytes audio_params (range_length rng))) 0;
          merged_table = []
      in case render_blocks audio_params ProcessNode rng active_blocks block_range_buffer of
           None \<Rightarrow> None
         | Some (Inl e) \<Rightarrow> Some (Inl e)
         | Some (Inr buf) \<Rightarrow> Some (Inr (Push merged_table kSamples (VByteArray buf))))"

section \<open>Strings and the SHA-1 hash\<close>

text \<open>
  \<open>QString::number\<close> of an integer: its decimal digits, after a minus sign when it is
  negative.
\<close>

definition digit_char :: "nat \<Rightarrow> char" where
  "digit_char d = char_of (48 + d)"

fun nat_digits :: "nat \<Rightarrow> string" where
  "nat_digits n = (if n < 10 then [digit_char n] else nat_digits (n div 10) @ [digit_char (n mod 10)])"

definition number :: "int \<Rightarrow> string" where
  "number i = (if i < 0 then CHR ''-'' # nat_digits (nat (- i)) else nat_digits (nat i))"

text \<open>
  \<open>QByteArray::toHex\<close>: two lower-case hexadecimal digits for each byte.
\<close>

definition hex_char :: "nat \<Rightarrow> char" where
  "hex_char d = (if d < 10 then char_of (48 + d) else char_of (87 + d))"

definition toHex :: "byte list \<Rightarrow> string" where
  "toHex bs = concat (map (\<lambda>b. [hex_char (unat b div 16), hex_char (unat b mod 16)]) bs)"

text \<open>
  \<open>QCryptographicHash(Sha1)\<close>: SHA-1 as in FIPS 180-4, on a message of whole bytes. A
  \<open>QByteArray\<close> that holds text is a \<open>string\<close>, each \<open>char\<close> one byte; a \<open>QString\<close> is
  modelled by its UTF-8 encoding, so \<open>toUtf8\<close> is the identity.
\<close>

definition be_bytes64 :: "64 word \<Rightarrow> byte list" where
  "be_bytes64 w = map (\<lambda>i. ucast (drop_bit (8 * (7 - i)) w)) [0..<8]"

definition sha1_pad :: "string \<Rightarrow> byte list" where
  "sha1_pad msg =
     map (\<lambda>c. of_nat (of_char c)) msg @ [0x80]
       @ replicate ((119 - length msg mod 64) mod 64) 0
       @ be_bytes64 (of_nat (8 * length msg))"

definition be_word :: "byte list \<Rightarrow> 32 word" where
  "be_word bs = foldl (\<lambda>w b. push_bit 8 w OR ucast b) 0 bs"

fun be_words :: "byte list \<Rightarrow> 32 word list" where
  "be_words (a # b # c # d # rest) = be_word [a, b, c, d] # be_words rest"
| "be_words _ = []"

definition rotl32 :: "nat \<Rightarrow> 32 word \<Rightarrow> 32 word" where
  "rotl32 n w = push_bit n w OR drop_bit (32 - n) w"

fun sha1_schedule :: "nat \<Rightarrow> 32 word list \<Rightarrow> 32 word list" where
  "sha1_schedule 0 ws = ws"
| "sha1_schedule (Suc n) ws =
     sha1_schedule n
       (ws @ [rotl32 1 (ws ! (length ws - 3) XOR ws ! (length ws - 8)
                XOR ws ! (length ws - 14) XOR ws ! (length ws - 16))])"

definition sha1_f :: "nat \<Rightarrow> 32 word \<Rightarrow> 32 word \<Rightarrow> 32 word \<Rightarrow> 32 word" where
  "sha1_f t b c d =
     (if t < 20 then (b AND c) OR (NOT b AND d)
      else if t < 40 then b XOR c XOR d
      else if t < 60 then (b AND c) OR (b AND d) OR (c AND d)
      else b XOR c XOR d)"

definition sha1_k :: "nat \<Rightarrow> 32 word" where
  "sha1_k t =
     (if t < 20 then 0x5A827999
      else if t < 40 then 0x6ED9EBA1
      else if t < 60 then 0x8F1BBCDC
      else 0xCA62C1D6)"

type_synonym sha1_state = "32 word \<times> 32 word \<times> 32 word \<times> 32 word \<times> 32 word"

fun sha1_round :: "sha1_state \<Rightarrow> nat \<times> 32 word \<Rightarrow> sha1_state" where
  "sha1_round (a, b, c, d, e) (t, w) =
     (rotl32 5 a + sha1_f t b c d + e + sha1_k t + w, a, rotl32 30 b, c, d)"

fun sha1_add :: "sha1_state \<Rightarrow> sha1_state \<Rightarrow> sha1_state" where
  "sha1_add (a, b, c, d, e) (a', b', c', d', e') = (a + a', b + b', c + c', d + d', e + e')"

definition sha1_block :: "sha1_state \<Rightarrow> byte list \<Rightarrow> sha1_state" where
  "sha1_block h block =
     sha1_add h (foldl sha1_round h (zip [0..<80] (sha1_schedule 64 (be_words block))))"

fun sha1_blocks :: "nat \<Rightarrow> sha1_state \<Rightarrow> byte list \<Rightarrow> sha1_state" where
  "sha1_blocks 0 h bs = h"
| "sha1_blocks (Suc n) h bs = sha1_blocks n (sha1_block h (take 64 bs)) (drop 64 bs)"

fun sha1_out :: "sha1_state \<Rightarrow> byte list" where
  "sha1_out (a, b, c, d, e) =
     concat (map (\<lambda>w. map (\<lambda>i. ucast (drop_bit (8 * (3 - i)) w)) [0..<4]) [a, b, c, d, e])"

definition sha1 :: "string \<Rightarrow> byte list" where
  "sha1 msg =
     sha1_out (sha1_blocks (length (sha1_pad msg) div 64)
                 (0x67452301, 0xEFCDAB89, 0x98BADCFE, 0x10325476, 0xC3D2E1F0)
                 (sha1_pad msg))"

section \<open>RendererProcessor\<close>

subsection \<open>State\<close>

record NodeDependency =
  dep_output :: nat
  dep_time :: rat

text \<open>
  Modelled from the spec: \<open>RendererProcessThread\<close> is not part of these sources. A
  worker has an identity (its address, never reused in the model) and a private queue of
  work items, each a dependency and the flag that says whether it is the primary render.
\<close>

record RendererProcessThread =
  thread_id :: nat
  thread_queue :: "(NodeDependency \<times> bool) list"

text \<open>The queue of a download worker: textures and the file names to save them under.\<close>

type_synonym RendererDownloadThread = "(RenderTexture \<times> string) list"

datatype NodeOutput = texture_output | other_output nat

text \<open>
  What the processor reads of its surroundings: \<open>QThread::idealThreadCount()\<close>,
  \<open>PixelService::GetBufferSize\<close>, \<open>GetMediaCacheLocation()\<close>, and whether \<open>Q_ASSERT\<close> is
  compiled in.
\<close>

record Environment =
  idealThreadCount :: int
  GetBufferSize :: "int \<Rightarrow> int \<Rightarrow> int \<Rightarrow> int"
  GetMediaCacheLocation :: string
  assertions :: bool

text \<open>
  The members of \<open>RendererProcessor\<close>, named as in the class without the final
  underscore. \<open>texture_input\<close> is the output connected to the texture input, if any.
  \<open>master_thread\<close> is the identity of the worker the pointer holds; \<open>master_texture\<close> is
  \<open>None\<close> for the null pointer. \<open>format\<close> and \<open>mode\<close> are the values of the enums.
  \<open>pending_signals\<close> are the \<open>FinishedPath\<close> signals queued for the processor's thread,
  each the identity of its sender; \<open>next_thread_id\<close> is the identity of the next worker
  to be created. \<open>cache_dirs\<close> and \<open>cache_files\<close> are the cache on disk: a file is
  \<open>Some None\<close> when it exists and cannot be opened as an image, and \<open>Some (Some px)\<close> when
  it holds the pixels \<open>px\<close>.
\<close>

record RendererProcessor =
  started :: bool
  width :: int
  height :: int
  divider :: int
  effective_width :: int
  effective_height :: int
  format :: int
  mode :: int
  caching :: bool
  cache_name :: string
  cache_time :: int
  cache_id :: string
  timebase :: rat
  timebase_dbl :: rat
  cache_queue :: "rat list"
  cache_frame :: rat
  threads :: "RendererProcessThread list"
  download_threads :: "RendererDownloadThread list"
  last_download_thread :: int
  master_thread :: "nat option"
  master_texture :: "RenderTexture option"
  cache_frame_load_buffer :: "byte list"
  texture_input :: "nat option"
  pending_signals :: "nat list"
  next_thread_id :: nat
  cache_dirs :: "string set"
  cache_files :: "string \<rightharpoonup> byte list option"

text \<open>
  The constructor sets \<open>started\<close>, \<open>width\<close>, \<open>height\<close>, \<open>divider\<close> and \<open>caching\<close>; strings,
  rationals, containers and shared pointers start empty, zero or null. It leaves
  \<open>effective_width\<close>, \<open>effective_height\<close>, \<open>format\<close>, \<open>mode\<close>, \<open>cache_time\<close>,
  \<open>timebase_dbl\<close>, \<open>last_download_thread\<close> and \<open>master_thread\<close> as they are in memory:
  any value is possible for them, except that \<open>master_thread\<close> is the address of no
  worker. The connection of the input and the disk are not the constructor's.
\<close>

definition constructed :: "RendererProcessor \<Rightarrow> bool" where
  "constructed s =
     (\<not> started s \<and> width s = 0 \<and> height s = 0 \<and> divider s = 1 \<and> \<not> caching s \<and>
      cache_name s = [] \<and> cache_id s = [] \<and> timebase s = 0 \<and> cache_queue s = [] \<and>
      cache_frame s = 0 \<and> threads s = [] \<and> download_threads s = [] \<and>
      master_thread s = None \<and> master_texture s = None \<and>
      cache_frame_load_buffer s = [] \<and> pending_signals s = [])"

subsection \<open>Cache identity\<close>

text \<open>C++ division of ints truncates towards zero.\<close>

definition cpp_div :: "int \<Rightarrow> int \<Rightarrow> fault + int" where
  "cpp_div a b =
     (if b = 0 then Inl DivideByZero
      else if a = - 2147483648 \<and> b = - 1 then Inl IntOverflow
      else Inr (sgn a * sgn b * (\<bar>a\<bar> div \<bar>b\<bar>)))"

definition CalculateEffectiveDimensions :: "RendererProcessor \<Rightarrow> fault + RendererProcessor" where
  "CalculateEffectiveDimensions s =
     (case cpp_div (width s) (divider s) of
        Inl e \<Rightarrow> Inl e
      | Inr w \<Rightarrow>
          (case cpp_div (height s) (divider s) of
             Inl e \<Rightarrow> Inl e
           | Inr h \<Rightarrow> Inr (s\<lparr>effective_width := w, effective_height := h\<rparr>)))"

text \<open>The bytes given to the hash, one \<open>addData\<close> after the other.\<close>

definition cache_message :: "RendererProcessor \<Rightarrow> string" where
  "cache_message s =
     cache_name s @ number (cache_time s) @ number (width s) @ number (height s)
       @ number (format s) @ number (divider s)"

definition GenerateCacheIDInternal :: "RendererProcessor \<Rightarrow> RendererProcessor" where
  "GenerateCacheIDInternal s =
     (if cache_name s = [] \<or> effective_width s = 0 \<or> effective_height s = 0 then s
      else s\<lparr>cache_id := toHex (sha1 (cache_message s))\<rparr>)"

definition SetCacheName :: "RendererProcessor \<Rightarrow> string \<Rightarrow> int \<Rightarrow> RendererProcessor" where
  "SetCacheName s name currentMSecsSinceEpoch =
     GenerateCacheIDInternal (s\<lparr>cache_name := name, cache_time := currentMSecsSinceEpoch\<rparr>)"

subsection \<open>Start and Stop\<close>

text \<open>
  \<open>Start\<close>: the new workers get identities never used before, and empty queues. The
  bytes that \<open>resize\<close> adds to the load buffer are taken as zero.
\<close>

definition Start :: "Environment \<Rightarrow> RendererProcessor \<Rightarrow> RendererProcessor" where
  "Start env s =
     (if started s then s
      else
        let background_thread_count = nat (idealThreadCount env)
        in s\<lparr>threads :=
                map (\<lambda>i. \<lparr>thread_id = next_thread_id s + i, thread_queue = []\<rparr>)
                  [0..<background_thread_count],
              next_thread_id := next_thread_id s + background_thread_count,
              download_threads := replicate background_thread_count [],
              last_download_thread := 0,
              master_texture :=
                Some \<lparr>tex_width = effective_width s, tex_height = effective_height s,
                      tex_format = format s, tex_pixels = []\<rparr>,
              cache_frame_load_buffer :=
                replicate (nat (GetBufferSize env (format s) (effective_width s)
                                  (effective_height s))) 0,
              started := True\<rparr>)"

definition Stop :: "RendererProcessor \<Rightarrow> RendererProcessor" where
  "Stop s =
     (if \<not> started s then s
      else s\<lparr>started := False, download_threads := [], threads := [],
              master_texture := None, cache_frame_load_buffer := []\<rparr>)"

definition Release :: "RendererProcessor \<Rightarrow> RendererProcessor" where
  "Release s = Stop s"

subsection \<open>Parameters\<close>

definition SetTimebase :: "RendererProcessor \<Rightarrow> rat \<Rightarrow> RendererProcessor" where
  "SetTimebase s tb = s\<lparr>timebase := tb, timebase_dbl := toDouble tb\<rparr>"

definition SetParameters ::
  "RendererProcessor \<Rightarrow> int \<Rightarrow> int \<Rightarrow> int \<Rightarrow> int \<Rightarrow> int \<Rightarrow> fault + RendererProcessor" where
  "SetParameters s w h f m d =
     (let s1 = Stop s;
          s2 = s1\<lparr>width := w, height := h, format := f, mode := m\<rparr>;
          s3 = (if 0 < d then s2\<lparr>divider := d\<rparr> else s2)
      in case CalculateEffectiveDimensions s3 of
           Inl e \<Rightarrow> Inl e
         | Inr s4 \<Rightarrow> Inr (GenerateCacheIDInternal s4))"

text \<open>\<open>Q_ASSERT(divider_ > 0)\<close> tests the member as it is before the call.\<close>

definition SetDivider ::
  "Environment \<Rightarrow> RendererProcessor \<Rightarrow> int \<Rightarrow> fault + RendererProcessor" where
  "SetDivider env s d =
     (if assertions env \<and> \<not> 0 < divider s then Inl AssertionFailed
      else
        case CalculateEffectiveDimensions ((Stop s)\<lparr>divider := d\<rparr>) of
          Inl e \<Rightarrow> Inl e
        | Inr s' \<Rightarrow> Inr (GenerateCacheIDInternal s'))"

subsection \<open>The scheduler\<close>

text \<open>
  \<open>CacheNext\<close>. \<open>Queue(dep, true)\<close> on the master worker: modelled from the spec, the
  master worker always accepts a primary item, which joins its queue.
\<close>

definition CacheNext :: "Environment \<Rightarrow> RendererProcessor \<Rightarrow> fault + RendererProcessor" where
  "CacheNext env s =
     (case cache_queue s of
        [] \<Rightarrow> Inr s
      | first # rest \<Rightarrow>
          (case texture_input s of
             None \<Rightarrow> Inr s
           | Some connected_output \<Rightarrow>
               if caching s then Inr s
               else
                 let s1 = (Start env s)\<lparr>cache_frame := first, cache_queue := rest\<rparr>
                 in case threads s1 of
                      [] \<Rightarrow> Inl IndexOutOfRange
                    | t # ts \<Rightarrow>
                        Inr (s1\<lparr>master_thread := Some (thread_id t),
                                 threads :=
                                   t\<lparr>thread_queue :=
                                        thread_queue t
                                          @ [(\<lparr>dep_output = connected_output,
                                                dep_time = first\<rparr>, True)]\<rparr> # ts,
                                 caching := True\<rparr>)))"

text \<open>
  Qt's \<open>QDir\<close>: the constructor drops a final separator of a path of two characters or
  more, and \<open>QDir::filePath\<close> returns an absolute file name as it is, the path of the
  directory for an empty file name, and otherwise the path and the file name with one
  separator between them.
\<close>

definition QDir :: "string \<Rightarrow> string" where
  "QDir path = (if 1 < length path \<and> last path = CHR ''/'' then butlast path else path)"

definition filePath :: "string \<Rightarrow> string \<Rightarrow> string" where
  "filePath dir fileName =
     (if fileName \<noteq> [] \<and> hd fileName = CHR ''/'' then fileName
      else if fileName = [] then dir
      else if dir = [] \<or> last dir = CHR ''/'' then dir @ fileName
      else dir @ ''/'' @ fileName)"

text \<open>\<open>CachePathName\<close>: the name of the cache file of a time; \<open>mkpath\<close> creates its directory.\<close>

definition CachePathName ::
  "Environment \<Rightarrow> RendererProcessor \<Rightarrow> rat \<Rightarrow> string \<times> RendererProcessor" where
  "CachePathName env s time =
     (let this_cache_dir = QDir (filePath (QDir (GetMediaCacheLocation env)) (cache_id s));
          filename = number (numerator time) @ ''.'' @ number (denominator time) @ ''.exr''
      in (filePath this_cache_dir filename,
          s\<lparr>cache_dirs := insert this_cache_dir (cache_dirs s)\<rparr>))"

text \<open>
  \<open>ThreadCallback\<close>, run for a \<open>FinishedPath\<close> signal. \<open>sender\<close> is the identity of the
  worker that sent it, or \<open>None\<close> when that worker is gone; \<open>texture\<close> is the value of
  the texture input at \<open>cache_frame\<close>, \<open>None\<close> for the null pointer. The remainder by the
  number of download workers is undefined when there is none.
\<close>

definition ThreadCallback ::
  "Environment \<Rightarrow> RendererProcessor \<Rightarrow> nat option \<Rightarrow> RenderTexture option
     \<Rightarrow> fault + RendererProcessor" where
  "ThreadCallback env s sender texture =
     (if sender \<noteq> None \<and> sender = master_thread s then
        let s1 = s\<lparr>caching := False\<rparr>;
            fn = fst (CachePathName env s1 (cache_frame s1));
            s2 = snd (CachePathName env s1 (cache_frame s1))
        in case texture of
             None \<Rightarrow> CacheNext env (s2\<lparr>cache_files := (cache_files s2)(fn := None)\<rparr>)
           | Some tex \<Rightarrow>
               if download_threads s2 = [] then Inl DivideByZero
               else
                 let i = nat (last_download_thread s2 mod int (length (download_threads s2)))
                 in CacheNext env
                      (s2\<lparr>download_threads :=
                             (download_threads s2)[i := download_threads s2 ! i @ [(tex, fn)]],
                           last_download_thread := last_download_thread s2 + 1\<rparr>)
      else Inr s)"

text \<open>
  \<open>ThreadRequestSibling\<close>: the first worker that accepts the dependency gets it.
  Modelled from the spec, a worker accepts an item that is not primary only when idle.
\<close>

fun queue_sibling ::
  "NodeDependency \<Rightarrow> RendererProcessThread list \<Rightarrow> RendererProcessThread list" where
  "queue_sibling dep [] = []"
| "queue_sibling dep (t # ts) =
     (if thread_queue t = [] then t\<lparr>thread_queue := [(dep, False)]\<rparr> # ts
      else t # queue_sibling dep ts)"

definition ThreadRequestSibling :: "RendererProcessor \<Rightarrow> NodeDependency \<Rightarrow> RendererProcessor" where
  "ThreadRequestSibling s dep = s\<lparr>threads := queue_sibling dep (threads s)\<rparr>"

subsection \<open>Invalidation\<close>

text \<open>
  The snap of \<open>start_range\<close> to the timebase, in doubles. A timebase with numerator 0
  makes the quotient infinite or not a number, whose conversion to int is undefined.
\<close>

definition true_start_range :: "rat \<Rightarrow> rat \<Rightarrow> fault + rat" where
  "true_start_range tb start_range =
     (let start_range_dbl = toDouble start_range;
          start_range_numf = dbl_mul start_range_dbl (dbl_of_int (denominator tb))
      in if numerator tb = 0 then Inl IntOutOfRange
         else
           case qFloor (dbl_div start_range_numf (dbl_of_int (numerator tb))) of
             Inl e \<Rightarrow> Inl e
           | Inr f \<Rightarrow> Inr (of_int (f * numerator tb) / of_int (denominator tb)))"

text \<open>
  \<open>for (rational r=true_start_range; r<=end_range; r+=timebase_)\<close>: it never ends when
  the timebase is zero or negative and the start is not after the end.
\<close>

partial_function (option) enqueue_loop :: "rat \<Rightarrow> rat \<Rightarrow> rat \<Rightarrow> rat list \<Rightarrow> rat list option" where
  "enqueue_loop tb end_range r queue =
     (if r \<le> end_range then
        enqueue_loop tb end_range (r + tb) (if r \<in> set queue then queue else queue @ [r])
      else Some queue)"

text \<open>
  \<open>InvalidateCache\<close>. \<open>Node::InvalidateCache\<close>, which passes the invalidation on to the
  nodes connected to the outputs, changes nothing of the processor.
\<close>

definition InvalidateCache ::
  "Environment \<Rightarrow> RendererProcessor \<Rightarrow> rat \<Rightarrow> rat \<Rightarrow> (fault + RendererProcessor) option" where
  "InvalidateCache env s start_range end_range =
     (case true_start_range (timebase s) start_range of
        Inl e \<Rightarrow> Some (Inl e)
      | Inr r0 \<Rightarrow>
          (case enqueue_loop (timebase s) end_range r0 (cache_queue s) of
             None \<Rightarrow> None
           | Some queue \<Rightarrow> Some (CacheNext env (s\<lparr>cache_queue := queue\<rparr>))))"

subsection \<open>The read path\<close>

text \<open>
  \<open>Value\<close>: the value returned, the warnings written with \<open>qWarning\<close>, and the state
  after the call. \<open>read_image\<close> writes the pixels of the file at the start of the load
  buffer; \<open>Upload\<close> copies the load buffer into the master texture.
\<close>

definition Value ::
  "Environment \<Rightarrow> RendererProcessor \<Rightarrow> NodeOutput \<Rightarrow> rat
     \<Rightarrow> fault + QVariant \<times> string list \<times> RendererProcessor" where
  "Value env s output time =
     (if output = texture_output then
        if texture_input s = None then Inr (VInt 0, [], s)
        else if cache_id s = [] then Inr (VInt 0, [''RendererProcessor has no cache ID''], s)
        else if isNull (timebase s) then
          Inr (VInt 0, [''RendererProcessor has no timebase''], s)
        else
          let fn = fst (CachePathName env s time);
              s1 = snd (CachePathName env s time)
          in case cache_files s1 fn of
               None \<Rightarrow> Inr (VInt 0, [], s1)
             | Some None \<Rightarrow> Inr (VInt 0, [], s1)
             | Some (Some pixels) \<Rightarrow>
                 (case write_bytes (cache_frame_load_buffer s1) 0 pixels of
                    Inl e \<Rightarrow> Inl e
                  | Inr buf \<Rightarrow>
                      (case master_texture s1 of
                         None \<Rightarrow> Inl NullPointer
                       | Some tex \<Rightarrow>
                           Inr (VTexture (tex\<lparr>tex_pixels := buf\<rparr>), [],
                                s1\<lparr>cache_frame_load_buffer := buf,
                                    master_texture := Some (tex\<lparr>tex_pixels := buf\<rparr>)\<rparr>)))
      else Inr (VInt 0, [], s))"

subsection \<open>Events\<close>

text \<open>
  Everything that changes the state of a processor: the calls of its public functions,
  and what happens around it. Modelled from the spec: a worker that completes the item
  at the head of its queue sends \<open>FinishedPath\<close> when the item was primary; the signal
  waits in the queue of the processor's thread until it is delivered to
  \<open>ThreadCallback\<close>, its sender known only if that worker still exists. A download
  worker that completes its first item writes the file.
\<close>

datatype event =
    EvSetCacheName string int
  | EvValue NodeOutput rat
  | EvRelease
  | EvInvalidateCache rat rat
  | EvSetTimebase rat
  | EvSetParameters int int int int int
  | EvSetDivider int
  | EvStart
  | EvStop
  | EvDeliver "RenderTexture option"
  | EvRequestSibling NodeDependency
  | EvWorkerDone nat
  | EvDownloadDone nat
  | EvConnect "nat option"

definition worker_done :: "RendererProcessor \<Rightarrow> nat \<Rightarrow> RendererProcessor" where
  "worker_done s i =
     (if i < length (threads s) then
        (case thread_queue (threads s ! i) of
           [] \<Rightarrow> s
         | (dep, primary) # rest \<Rightarrow>
             s\<lparr>threads := (threads s)[i := (threads s ! i)\<lparr>thread_queue := rest\<rparr>],
               pending_signals :=
                 (if primary then pending_signals s @ [thread_id (threads s ! i)]
                  else pending_signals s)\<rparr>)
      else s)"

definition download_done :: "RendererProcessor \<Rightarrow> nat \<Rightarrow> RendererProcessor" where
  "download_done s i =
     (if i < length (download_threads s) then
        (case download_threads s ! i of
           [] \<Rightarrow> s
         | (tex, fn) # rest \<Rightarrow>
             s\<lparr>download_threads := (download_threads s)[i := rest],
               cache_files := (cache_files s)(fn \<mapsto> Some (tex_pixels tex))\<rparr>)
      else s)"

definition deliver ::
  "Environment \<Rightarrow> RendererProcessor \<Rightarrow> RenderTexture option \<Rightarrow> fault + RendererProcessor" where
  "deliver env s texture =
     (case pending_signals s of
        [] \<Rightarrow> Inr s
      | sid # rest \<Rightarrow>
          ThreadCallback env (s\<lparr>pending_signals := rest\<rparr>)
            (if sid \<in> thread_id ` set (threads s) then Some sid else None) texture)"

fun step :: "Environment \<Rightarrow> RendererProcessor \<Rightarrow> event \<Rightarrow> (fault + RendererProcessor) option" where
  "step env s (EvSetCacheName name now) = Some (Inr (SetCacheName s name now))"
| "step env s (EvValue output time) =
     (case Value env s output time of
        Inl e \<Rightarrow> Some (Inl e)
      | Inr (v, warnings, s') \<Rightarrow> Some (Inr s'))"
| "step env s EvRelease = Some (Inr (Release s))"
| "step env s (EvInvalidateCache start_range end_range) =
     InvalidateCache env s start_range end_range"
| "step env s (EvSetTimebase tb) = Some (Inr (SetTimebase s tb))"
| "step env s (EvSetParameters w h f m d) = Some (SetParameters s w h f m d)"
| "step env s (EvSetDivider d) = Some (SetDivider env s d)"
| "step env s EvStart = Some (Inr (Start env s))"
| "step env s EvStop = Some (Inr (Stop s))"
| "step env s (EvDeliver texture) = Some (deliver env s texture)"
| "step env s (EvRequestSibling dep) = Some (Inr (ThreadRequestSibling s dep))"
| "step env s (EvWorkerDone i) = Some (Inr (worker_done s i))"
| "step env s (EvDownloadDone i) = Some (Inr (download_done s i))"
| "step env s (EvConnect out) = Some (Inr (s\<lparr>texture_input := out\<rparr>))"

text \<open>The states a processor can be in: after its constructor, and after any event that returns.\<close>

inductive reachable :: "Environment \<Rightarrow> RendererProcessor \<Rightarrow> bool" for env where
  reachable_constructed: "constructed s \<Longrightarrow> reachable env s"
| reachable_step: "reachable env s \<Longrightarrow> step env s ev = Some (Inr s') \<Longrightarrow> reachable env s'"

text \<open>
  The primary renders in flight: the primary items in the queues of the workers, and the
  completion signals of workers that still exist and wait to be delivered.
\<close>

definition primary_in_flight :: "RendererProcessor \<Rightarrow> nat" where
  "primary_in_flight s =
     sum_list (map (\<lambda>t. length (filter snd (thread_queue t))) (threads s))
       + length (filter (\<lambda>sid. sid \<in> thread_id ` set (threads s)) (pending_signals s))"

text \<open>
  What holds of the workers and their signals in every reachable state: the identities
  of workers and senders are older than \<open>next_thread_id\<close>; a worker with a primary item,
  and a living sender of a waiting signal, is the master worker; at most one primary
  render is in flight, and then \<open>caching\<close> is set.
\<close>

definition scheduler_invariant :: "RendererProcessor \<Rightarrow> bool" where
  "scheduler_invariant s =
     ((\<forall>t \<in> set (threads s). thread_id t < next_thread_id s) \<and>
      (\<forall>sid \<in> set (pending_signals s). sid < next_thread_id s) \<and>
      (\<forall>t \<in> set (threads s).
         filter snd (thread_queue t) \<noteq> [] \<longrightarrow> master_thread s = Some (thread_id t)) \<and>
      (\<forall>sid \<in> set (pending_signals s).
         sid \<in> thread_id ` set (threads s) \<longrightarrow> master_thread s = Some sid) \<and>
      primary_in_flight s \<le> 1 \<and>
      (0 < primary_in_flight s \<longrightarrow> caching s))"


text \<open>
  The six inputs of the cache identity, and two processors whose inputs differ in
  exactly one of the six.
\<close>

definition identity_inputs ::
  "RendererProcessor \<Rightarrow> string \<times> int \<times> int \<times> int \<times> int \<times> int" where
  "identity_inputs s = (cache_name s, cache_time s, width s, height s, format s, divider s)"

definition one_field_differs :: "RendererProcessor \<Rightarrow> RendererProcessor \<Rightarrow> bool" where
  "one_field_differs s1 s2 =
     (length (filter (\<lambda>b. b)
        [cache_name s1 \<noteq> cache_name s2, cache_time s1 \<noteq> cache_time s2,
         width s1 \<noteq> width s2, height s1 \<noteq> height s2, format s1 \<noteq> format s2,
         divider s1 \<noteq> divider s2]) = 1)"

text \<open>
  The cache identity can be generated (the guard of \<open>GenerateCacheIDInternal\<close> does not
  return), and the stored identity is the one of the stored fields.
\<close>

definition caching_enabled :: "RendererProcessor \<Rightarrow> bool" where
  "caching_enabled s =
     (cache_name s \<noteq> [] \<and> effective_width s \<noteq> 0 \<and> effective_height s \<noteq> 0)"

definition identity_current :: "RendererProcessor \<Rightarrow> bool" where
  "identity_current s = (cache_id s = toHex (sha1 (cache_message s)))"

text \<open>
  The points of the grid of step \<open>tb\<close> from \<open>r0\<close> up to \<open>end_range\<close>, in increasing
  order: \<open>r0\<close>, \<open>r0 + tb\<close>, \<open>r0 + 2 * tb\<close> and so on while not after \<open>end_range\<close>.
\<close>

definition grid_points :: "rat \<Rightarrow> rat \<Rightarrow> rat \<Rightarrow> rat list" where
  "grid_points tb r0 end_range =
     map (\<lambda>k. r0 + of_nat k * tb) [0..<nat (\<lfloor>(end_range - r0) / tb\<rfloor> + 1)]"

section \<open>A processor to run the model on\<close>

text \<open>
  An environment with two cores, and a processor as its constructor leaves it, with 0
  in the members that the constructor does not set, nothing connected and an empty cache.
\<close>

definition example_env :: Environment where
  "example_env =
     \<lparr>idealThreadCount = 2, GetBufferSize = (\<lambda>f w h. 4 * w * h),
      GetMediaCacheLocation = ''/cache'', assertions = True\<rparr>"

definition new_processor :: RendererProcessor where
  "new_processor =
     \<lparr>started = False, width = 0, height = 0, divider = 1, effective_width = 0,
      effective_height = 0, format = 0, mode = 0, caching = False, cache_name = [],
      cache_time = 0, cache_id = [], timebase = 0, timebase_dbl = 0, cache_queue = [],
      cache_frame = 0, threads = [], download_threads = [], last_download_thread = 0,
      master_thread = None, master_texture = None, cache_frame_load_buffer = [],
      texture_input = None, pending_signals = [], next_thread_id = 0, cache_dirs = {},
      cache_files = Map.empty\<rparr>"


section \<open>ProjectSaveManager\<close>

text \<open>
  What \<open>QXmlStreamWriter\<close> is asked to write, in order. \<open>Project::Save\<close> is not part of
  these sources: the events it writes are a field of the project.
\<close>

datatype xml_event =
    StartDocument
  | StartElement string
  | TextElement string string
  | EndElement
  | EndDocument

record Project =
  filename :: string
  save_events :: "xml_event list"

datatype save_signal = Succeeded

text \<open>
  \<open>ProjectSaveManager::Action\<close>. The file system is a map from file names to what was
  written to them; \<open>can_open\<close> says whether \<open>QFile::open(WriteOnly | Text)\<close> succeeds
  on a name. Opening for writing truncates the file. The result is the file system after
  the call and the signals emitted.
\<close>

definition Action ::
  "Project \<Rightarrow> (string \<Rightarrow> bool) \<Rightarrow> (string \<rightharpoonup> xml_event list)
     \<Rightarrow> (string \<rightharpoonup> xml_event list) \<times> save_signal list" where
  "Action project can_open fs =
     (let fs' =
        (if can_open (filename project) then
           fs(filename project \<mapsto>
                [StartDocument, StartElement ''olive'', TextElement ''version'' ''0.2.0'']
                @ save_events project
                @ [EndElement, EndDocument])
         else fs)
      in (fs', [Succeeded]))"

section \<open>Simplifier setup\<close>

text \<open>The recursive equations of these functions are unfolded on request only.\<close>

declare nat_digits.simps [simp del]

declare bitlen.simps [simp del]

section \<open>Properties of AudioRenderWorker::RenderBlock\<close>

lemma write_bytes_length: "write_bytes buf off src = Inr buf' \<Longrightarrow> length buf' = length buf"
  by (auto simp: write_bytes_def split: if_splits)

lemma copy_samples_length: "copy_samples buf off src = Inr buf' \<Longrightarrow> length buf' = length buf"
  by (auto simp: copy_samples_def split: if_splits dest: write_bytes_length)

lemma place_samples_length:
  "place_samples p b samples off buf = Some (Inr (c, buf')) \<Longrightarrow> length buf' = length buf"
  by (auto simp: place_samples_def split: option.splits sum.splits dest: copy_samples_length)

lemma render_one_length:
  assumes "render_one p pn rng b buf = Some (Inr buf')"
  shows "length buf' = length buf"
proof -
  let ?rfb = "\<lparr>range_in = max (block_in b) (range_in rng),
               range_out = min (block_out b) (range_out rng)\<rparr>"
  let ?s = "toByteArray (fst (Take (pn b ?rfb) kSamples))"
  let ?off = "time_to_bytes p (range_in ?rfb - range_in rng)"
  obtain c buf1 where
    1: "(if ?s \<noteq> [] then place_samples p b ?s ?off buf else Some (Inr (0, buf)))
          = Some (Inr (c, buf1))"
    and 2: "buf' = buf1 \<or> (\<exists>off src. write_bytes buf1 off src = Inr buf')"
    using assms
    by (auto simp: render_one_def Let_def split: option.splits sum.splits prod.splits if_splits)
  from 1 have "length buf1 = length buf"
    by (auto split: if_splits dest: place_samples_length)
  with 2 show ?thesis by (auto dest: write_bytes_length)
qed

lemma render_blocks_length:
  "render_blocks p pn rng bs buf = Some (Inr buf') \<Longrightarrow> length buf' = length buf"
  by (induction bs arbitrary: buf)
     (auto split: option.splits sum.splits dest: render_one_length)

lemma Get_Push: "Get (Push table ty v) ty = v"
  by (simp add: Get_def Take_def Push_def)

text \<open>
  Where \<open>RenderBlock\<close> returns a table, without a copy past the end of the buffer, the
  samples of the table have the length of the range in bytes.
\<close>

lemma RenderBlock_length:
  "RenderBlock p pn track rng = Some (Inr table) \<Longrightarrow>
   int (length (toByteArray (Get table kSamples))) = max 0 (time_to_bytes p (range_length rng))"
  by (auto simp: RenderBlock_def Let_def Get_Push split: option.splits sum.splits
        dest!: render_blocks_length)

text \<open>
  C2: the claim is that the sample buffer of the result of \<open>RenderBlock\<close> always has the
  length of the range in bytes, whatever the size of the buffers rendered for the blocks.
  The code copies \<open>copied_size\<close> bytes without comparing them with \<open>maximum_copy_size\<close> or
  with the end of the buffer. Here the range is one second at four bytes a second, and
  the only block, which covers the range, renders six bytes: the memcpy writes two
  bytes past the end of the buffer of four bytes.
\<close>

theorem RenderBlock_oversize_overflows:
  "RenderBlock
     \<lparr>time_to_bytes = (\<lambda>t. \<lfloor>t * 4\<rfloor>), bytes_to_samples = (\<lambda>b. b),
      samples_to_bytes = (\<lambda>n. n)\<rparr>
     (\<lambda>b r. [(kSamples, VByteArray [1, 2, 3, 4, 5, 6])])
     [\<lparr>block_in = 0, block_out = 1, block_length = 1, block_media_length = 1,
       block_speed = 1, block_is_reversed = False\<rparr>]
     \<lparr>range_in = 0, range_out = 1\<rparr>
   = Some (Inl OutOfBounds)"
  by (simp add: RenderBlock_def BlocksAtTimeRange_def range_length_def render_one_def Take_def
       place_samples_def stretch_samples_def copy_samples_def write_bytes_def Let_def)

section \<open>Properties of the sample reversal\<close>

lemma chunks_Nil [simp]: "chunks n [] = []"
  by simp

declare chunks.simps [simp del]

lemma chunks_append_first:
  "0 < n \<Longrightarrow> length X = n \<Longrightarrow> chunks n (X @ Z) = X # chunks n Z"
  by (subst chunks.simps) auto

lemma chunks_append_last:
  "0 < n \<Longrightarrow> n dvd length Z \<Longrightarrow> length Y = n \<Longrightarrow> chunks n (Z @ Y) = chunks n Z @ [Y]"
proof (induction n Z rule: chunks.induct)
  case (1 n xs)
  show ?case
  proof (cases "xs = []")
    case True
    with 1 show ?thesis by (auto simp: chunks.simps [of n Y])
  next
    case False
    with 1(2,3) have len: "n \<le> length xs" by (auto dest: dvd_imp_le)
    with 1(3) have d: "n dvd length (drop n xs)" by (simp add: dvd_diff_nat)
    have "chunks n (xs @ Y) = take n xs # chunks n (drop n xs @ Y)"
      using len 1(2) False by (subst chunks.simps) auto
    also have "chunks n (drop n xs @ Y) = chunks n (drop n xs) @ [Y]"
      using 1 False d by simp
    finally show ?thesis using False 1(2) by (simp add: chunks.simps [of n xs])
  qed
qed

lemma rev_chunks_sandwich:
  "0 < n \<Longrightarrow> length X = n \<Longrightarrow> length Y = n \<Longrightarrow> n dvd length M \<Longrightarrow>
   rev_chunks n (X @ M @ Y) = Y @ rev_chunks n M @ X"
  by (simp add: rev_chunks_def chunks_append_first chunks_append_last)

lemma chunks_concat:
  "0 < n \<Longrightarrow> \<forall>c\<in>set cs. length c = n \<Longrightarrow> chunks n (concat cs) = cs"
  by (induction cs) (auto simp: chunks_append_first)

lemma concat_chunks: "0 < n \<Longrightarrow> concat (chunks n xs) = xs"
  by (induction n xs rule: chunks.induct) (subst chunks.simps, auto)

lemma chunks_lengths:
  "n dvd length xs \<Longrightarrow> c \<in> set (chunks n xs) \<Longrightarrow> length c = n"
proof (induction n xs rule: chunks.induct)
  case (1 n xs)
  show ?case
  proof (cases "n = 0 \<or> xs = []")
    case True
    with 1(3) show ?thesis by (simp add: chunks.simps [of n xs])
  next
    case False
    with 1(2) have len: "n \<le> length xs" by (auto dest: dvd_imp_le)
    with 1(2) have d: "n dvd length (drop n xs)" by (simp add: dvd_diff_nat)
    from 1(3) False have "c = take n xs \<or> c \<in> set (chunks n (drop n xs))"
      by (simp add: chunks.simps [of n xs])
    then show ?thesis using 1(1) False d len by auto
  qed
qed

lemma rev_chunks_involutive:
  assumes "0 < n" "n dvd length xs"
  shows "rev_chunks n (rev_chunks n xs) = xs"
proof -
  have "chunks n (concat (rev (chunks n xs))) = rev (chunks n xs)"
    using assms by (intro chunks_concat) (auto dest: chunks_lengths)
  then show ?thesis using assms by (simp add: rev_chunks_def concat_chunks)
qed

lemma length_rev_chunks: "0 < n \<Longrightarrow> length (rev_chunks n xs) = length xs"
proof -
  assume n: "0 < n"
  have "length (concat (rev css)) = length (concat css)" for css :: "'a list list"
    by (induction css) auto
  then show ?thesis using n by (simp add: rev_chunks_def concat_chunks)
qed

lemma swap_sample_distinct:
  assumes "length X = nat ss" "length Y = nat ss" "0 < ss"
  shows "swap_sample ss (A @ X @ M @ Y @ B) (int (length A)) (int (length A) + ss + int (length M))
         = Inr (A @ Y @ M @ X @ B)"
  using assms
  by (simp add: swap_sample_def read_bytes_def write_bytes_def nat_add_distrib)

lemma swap_sample_self:
  assumes "length X = nat ss" "0 < ss"
  shows "swap_sample ss (A @ X @ B) (int (length A)) (int (length A)) = Inr (A @ X @ B)"
  using assms
  by (simp add: swap_sample_def read_bytes_def write_bytes_def nat_add_distrib)

lemma rev_chunks_Nil: "rev_chunks n [] = []"
  by (simp add: rev_chunks_def)

lemma rev_chunks_single: "0 < n \<Longrightarrow> length X = n \<Longrightarrow> rev_chunks n X = X"
  using chunks_append_first [of n X "[]"] by (simp add: rev_chunks_def)

lemma reverse_loop_chunks:
  assumes ss: "0 < ss"
  shows "nat ss dvd length M \<Longrightarrow> length A = length B \<Longrightarrow>
         reverse_loop ss (int (length (A @ M @ B)) div 2) (int (length A)) (A @ M @ B)
           = Some (Inr (A @ rev_chunks (nat ss) M @ B))"
proof (induction "length M" arbitrary: M A B rule: less_induct)
  case less
  let ?n = "nat ss"
  have n: "0 < ?n" using ss by simp
  have half: "int (length (A @ M @ B)) div 2 = int (length A) + int (length M) div 2"
    using less.prems(2) by simp
  consider (empty) "M = []" | (one) "length M = ?n" | (more) "2 * ?n \<le> length M"
  proof -
    obtain k where k: "length M = ?n * k" using less.prems(1) by (auto elim: dvdE)
    have "k = 0 \<or> k = 1 \<or> 2 \<le> k" by arith
    then show ?thesis using k that n by auto
  qed
  then show ?case
  proof cases
    case empty
    then show ?thesis
      using less.prems(2) by (subst reverse_loop.simps) (simp add: rev_chunks_Nil)
  next
    case one
    show ?thesis
    proof (cases "ss = 1")
      case True
      then have "\<not> int (length A) < int (length (A @ M @ B)) div 2"
        using one half by simp
      then show ?thesis
        using one n by (subst reverse_loop.simps) (simp add: rev_chunks_single)
    next
      case False
      then have lt: "int (length A) < int (length (A @ M @ B)) div 2"
        using one half ss by simp
      have dst: "int (length (A @ M @ B)) - ss - int (length A) = int (length A)"
        using one less.prems(2) ss by simp
      have sw: "swap_sample ss (A @ M @ B) (int (length A)) (int (length A)) = Inr (A @ M @ B)"
        using swap_sample_self [of M ss A B] one ss by simp
      have stop: "\<not> int (length A) + ss < int (length (A @ M @ B)) div 2"
        using one half ss by simp
      have "reverse_loop ss (int (length (A @ M @ B)) div 2) (int (length A)) (A @ M @ B)
            = reverse_loop ss (int (length (A @ M @ B)) div 2) (int (length A) + ss) (A @ M @ B)"
        using lt dst sw by (subst reverse_loop.simps) simp
      also have "\<dots> = Some (Inr (A @ M @ B))"
        using stop by (subst reverse_loop.simps) simp
      finally show ?thesis using one n by (simp add: rev_chunks_single)
    qed
  next
    case more
    define X where "X = take ?n M"
    define Y where "Y = drop (length M - 2 * ?n) (drop ?n M)"
    define M' where "M' = take (length M - 2 * ?n) (drop ?n M)"
    have lX: "length X = ?n" and lY: "length Y = ?n" and lM': "length M' = length M - 2 * ?n"
      using more by (simp_all add: X_def Y_def M'_def)
    have "M' @ Y = drop ?n M"
      unfolding M'_def Y_def by (rule append_take_drop_id)
    then have M: "M = X @ M' @ Y"
      unfolding X_def by simp
    have dM': "?n dvd length M'"
      using less.prems(1) lM' by (simp add: dvd_diff_nat)
    have lt: "int (length A) < int (length (A @ M @ B)) div 2"
      using more half ss by simp
    have dst: "int (length (A @ M @ B)) - ss - int (length A)
               = int (length A) + ss + int (length M')"
      using more less.prems(2) ss lM' by (simp add: of_nat_diff)
    have sw: "swap_sample ss (A @ M @ B) (int (length A)) (int (length A) + ss + int (length M'))
              = Inr (A @ Y @ M' @ X @ B)"
      using swap_sample_distinct [of X ss Y A M' B] lX lY ss by (simp add: M)
    have eq: "A @ Y @ M' @ X @ B = (A @ Y) @ M' @ (X @ B)" by simp
    have len_eq: "length (A @ M @ B) = length ((A @ Y) @ M' @ (X @ B))"
      by (simp add: M)
    have src: "int (length A) + ss = int (length (A @ Y))"
      using lY ss by simp
    have IH: "reverse_loop ss (int (length ((A @ Y) @ M' @ (X @ B))) div 2)
                (int (length (A @ Y))) ((A @ Y) @ M' @ (X @ B))
              = Some (Inr ((A @ Y) @ rev_chunks ?n M' @ (X @ B)))"
      using less.hyps [of M' "A @ Y" "X @ B"] dM' lM' more n less.prems(2) lX lY by simp
    have "reverse_loop ss (int (length (A @ M @ B)) div 2) (int (length A)) (A @ M @ B)
          = reverse_loop ss (int (length (A @ M @ B)) div 2) (int (length A) + ss)
              (A @ Y @ M' @ X @ B)"
      using lt by (subst reverse_loop.simps) (simp only: dst sw if_True sum.case)
    also have "\<dots> = Some (Inr ((A @ Y) @ rev_chunks ?n M' @ (X @ B)))"
      unfolding len_eq src eq by (rule IH)
    also have "(A @ Y) @ rev_chunks ?n M' @ (X @ B) = A @ rev_chunks ?n M @ B"
      using rev_chunks_sandwich [OF n lX lY dM'] by (simp add: M)
    finally show ?thesis .
  qed
qed

lemma reverse_samples_rev_chunks:
  assumes "0 < ss" "nat ss dvd length buf"
  shows "reverse_samples ss buf = Some (Inr (rev_chunks (nat ss) buf))"
  using reverse_loop_chunks [OF assms(1), of buf "[]" "[]"] assms
  by (simp add: reverse_samples_def)

lemma reverse_samples_zero:
  "reverse_samples 0 [] = Some (Inr [])"
  by (simp add: reverse_samples_def) (subst reverse_loop.simps, simp)

text \<open>
  C8: the in-place reversal of a sample buffer is an involution. For every buffer whose
  length in bytes is a multiple of the size of a sample, the reversal step returns a
  buffer, and the reversal step applied to that buffer returns the original bytes.
\<close>

theorem reverse_samples_involutive:
  assumes "0 \<le> sample_size" "sample_size dvd int (length buf)"
  shows "\<exists>r. reverse_samples sample_size buf = Some (Inr r) \<and>
             reverse_samples sample_size r = Some (Inr buf)"
proof (cases "sample_size = 0")
  case True
  with assms show ?thesis by (simp add: reverse_samples_zero)
next
  case False
  with assms have ss: "0 < sample_size" by simp
  have d: "nat sample_size dvd length buf"
    using assms ss by (metis nat_dvd_iff nat_int of_nat_0_le_iff dvd_def int_dvd_int_iff int_nat_eq less_imp_le)
  have n: "0 < nat sample_size" using ss by simp
  have "reverse_samples sample_size buf = Some (Inr (rev_chunks (nat sample_size) buf))"
    using ss d by (rule reverse_samples_rev_chunks)
  moreover have "reverse_samples sample_size (rev_chunks (nat sample_size) buf)
                 = Some (Inr (rev_chunks (nat sample_size) (rev_chunks (nat sample_size) buf)))"
    using ss d n by (intro reverse_samples_rev_chunks) (simp_all add: length_rev_chunks)
  ultimately show ?thesis using rev_chunks_involutive [OF n d] by simp
qed

theorem reverse_samples_involutive_witness:
  "(0::int) \<le> 2 \<and> (2::int) dvd int (length [1, 2, 3, 4, 5, 6 :: byte]) \<and>
   (\<exists>r. reverse_samples 2 [1, 2, 3, 4, 5, 6] = Some (Inr r) \<and>
        reverse_samples 2 r = Some (Inr [1, 2, 3, 4, 5, 6]))"
  using reverse_samples_involutive [of 2 "[1, 2, 3, 4, 5, 6]"]
  by simp

section \<open>Properties of the strings and of the hash\<close>

lemma of_char_digit_char: "d < 10 \<Longrightarrow> of_char (digit_char d) = 48 + d"
  by (simp add: digit_char_def)

lemma digit_char_inj: "a < 10 \<Longrightarrow> b < 10 \<Longrightarrow> digit_char a = digit_char b \<Longrightarrow> a = b"
proof -
  assume a: "a < 10" and b: "b < 10" and eq: "digit_char a = digit_char b"
  from eq have "(of_char (digit_char a) :: nat) = of_char (digit_char b)" by simp
  then show "a = b" using a b by (simp add: of_char_digit_char)
qed

lemma nat_digits_nonempty: "nat_digits n \<noteq> []"
  by (subst nat_digits.simps) simp

lemma nat_digits_chars: "c \<in> set (nat_digits n) \<Longrightarrow> \<exists>d<10. c = digit_char d"
proof (induction n rule: nat_digits.induct)
  case (1 n)
  show ?case
  proof (cases "n < 10")
    case True
    with 1(2) show ?thesis by (subst (asm) nat_digits.simps) auto
  next
    case False
    with 1(2) have "c \<in> set (nat_digits (n div 10)) \<or> c = digit_char (n mod 10)"
      by (subst (asm) nat_digits.simps) auto
    then show ?thesis
    proof
      assume "c \<in> set (nat_digits (n div 10))"
      then show ?thesis using 1(1) False by simp
    next
      assume "c = digit_char (n mod 10)"
      then show ?thesis by (intro exI [of _ "n mod 10"]) simp
    qed
  qed
qed

lemma nat_digits_inj: "nat_digits n = nat_digits m \<Longrightarrow> n = m"
proof (induction n arbitrary: m rule: nat_digits.induct)
  case (1 n)
  show ?case
  proof (cases "n < 10")
    case n: True
    show ?thesis
    proof (cases "m < 10")
      case True
      with n 1(2) show ?thesis
        by (simp add: nat_digits.simps [of n] nat_digits.simps [of m] digit_char_inj)
    next
      case False
      with n 1(2) show ?thesis
        by (simp add: nat_digits.simps [of n] nat_digits.simps [of m] nat_digits_nonempty
              nat_digits_nonempty [symmetric])
    qed
  next
    case n: False
    show ?thesis
    proof (cases "m < 10")
      case True
      with n 1(2) show ?thesis
        by (simp add: nat_digits.simps [of n] nat_digits.simps [of m] nat_digits_nonempty
              nat_digits_nonempty [symmetric])
    next
      case False
      with n 1(2) have eq: "nat_digits (n div 10) = nat_digits (m div 10)"
        and d: "digit_char (n mod 10) = digit_char (m mod 10)"
        by (simp_all add: nat_digits.simps [of n] nat_digits.simps [of m])
      from eq have "n div 10 = m div 10" using 1(1) n by simp
      moreover from d have "n mod 10 = m mod 10" by (intro digit_char_inj) simp_all
      ultimately show ?thesis by (metis div_mult_mod_eq)
    qed
  qed
qed

lemma minus_not_digit: "CHR ''-'' \<notin> set (nat_digits n)"
proof
  assume "CHR ''-'' \<in> set (nat_digits n)"
  then obtain d where "d < 10" "CHR ''-'' = digit_char d"
    by (auto dest: nat_digits_chars)
  then have "(of_char CHR ''-'' :: nat) = 48 + d" by (simp add: of_char_digit_char)
  then show False by simp
qed

lemma number_inj: "number i = number j \<Longrightarrow> i = j"
proof -
  assume eq: "number i = number j"
  have hd_neg: "hd (nat_digits n) \<noteq> CHR ''-''" for n
    using minus_not_digit [of n] nat_digits_nonempty [of n] by (cases "nat_digits n") auto
  show ?thesis
  proof (cases "i < 0")
    case i: True
    show ?thesis
    proof (cases "j < 0")
      case True
      with i eq have "nat (- i) = nat (- j)" by (auto simp: number_def dest: nat_digits_inj)
      with i True show ?thesis by simp
    next
      case False
      with i eq have "CHR ''-'' # nat_digits (nat (- i)) = nat_digits (nat j)"
        by (simp add: number_def)
      then have "hd (nat_digits (nat j)) = CHR ''-''" by (metis list.sel(1))
      with hd_neg show ?thesis by simp
    qed
  next
    case i: False
    show ?thesis
    proof (cases "j < 0")
      case True
      with i eq have "nat_digits (nat i) = CHR ''-'' # nat_digits (nat (- j))"
        by (simp add: number_def)
      then have "hd (nat_digits (nat i)) = CHR ''-''" by (metis list.sel(1))
      with hd_neg show ?thesis by simp
    next
      case False
      with i eq have "nat i = nat j" by (auto simp: number_def dest: nat_digits_inj)
      with i False show ?thesis by simp
    qed
  qed
qed

lemma of_char_hex_char: "d < 16 \<Longrightarrow> of_char (hex_char d) = (if d < 10 then 48 + d else 87 + d)"
  by (simp add: hex_char_def)

lemma hex_char_inj: "a < 16 \<Longrightarrow> b < 16 \<Longrightarrow> hex_char a = hex_char b \<Longrightarrow> a = b"
proof -
  assume a: "a < 16" and b: "b < 16" and eq: "hex_char a = hex_char b"
  from eq have "(of_char (hex_char a) :: nat) = of_char (hex_char b)" by simp
  then show "a = b" using a b by (simp add: of_char_hex_char split: if_splits)
qed

lemma toHex_Cons:
  "toHex (b # bs) = hex_char (unat b div 16) # hex_char (unat b mod 16) # toHex bs"
  by (simp add: toHex_def)

lemma toHex_Nil: "toHex [] = []"
  by (simp add: toHex_def)

lemma byte_lt: "unat (b :: byte) < 256"
  using unsigned_less [of b, where ?'a = nat] by simp

lemma toHex_inj: "toHex xs = toHex ys \<Longrightarrow> xs = ys"
proof (induction xs arbitrary: ys)
  case Nil
  then show ?case by (cases ys) (simp_all add: toHex_Nil toHex_Cons)
next
  case (Cons x xs)
  then obtain y ys' where ys: "ys = y # ys'"
    by (cases ys) (simp_all add: toHex_Nil toHex_Cons)
  from Cons.prems ys have h: "hex_char (unat x div 16) = hex_char (unat y div 16)"
    and l: "hex_char (unat x mod 16) = hex_char (unat y mod 16)"
    and r: "toHex xs = toHex ys'"
    by (simp_all add: toHex_Cons)
  have "unat x div 16 < 16" "unat y div 16 < 16"
    using byte_lt [of x] byte_lt [of y] by simp_all
  with h have "unat x div 16 = unat y div 16" by (rule hex_char_inj [rotated 2])
  moreover from l have "unat x mod 16 = unat y mod 16" by (intro hex_char_inj) simp_all
  ultimately have "unat x = unat y" by (metis div_mult_mod_eq)
  then have "x = y" by (simp add: word_unat_eq_iff)
  with r Cons.IH ys show ?case by simp
qed

lemma append_mid_cancel: "a @ x @ b = a @ y @ b \<longleftrightarrow> x = y"
  by simp

lemma cache_message_differs:
  assumes "one_field_differs s1 s2"
  shows "cache_message s1 \<noteq> cache_message s2"
proof -
  from assms consider
      (name) "cache_name s1 \<noteq> cache_name s2" "cache_time s1 = cache_time s2"
        "width s1 = width s2" "height s1 = height s2" "format s1 = format s2"
        "divider s1 = divider s2"
    | (time) "cache_name s1 = cache_name s2" "cache_time s1 \<noteq> cache_time s2"
        "width s1 = width s2" "height s1 = height s2" "format s1 = format s2"
        "divider s1 = divider s2"
    | (width) "cache_name s1 = cache_name s2" "cache_time s1 = cache_time s2"
        "width s1 \<noteq> width s2" "height s1 = height s2" "format s1 = format s2"
        "divider s1 = divider s2"
    | (height) "cache_name s1 = cache_name s2" "cache_time s1 = cache_time s2"
        "width s1 = width s2" "height s1 \<noteq> height s2" "format s1 = format s2"
        "divider s1 = divider s2"
    | (format) "cache_name s1 = cache_name s2" "cache_time s1 = cache_time s2"
        "width s1 = width s2" "height s1 = height s2" "format s1 \<noteq> format s2"
        "divider s1 = divider s2"
    | (divider) "cache_name s1 = cache_name s2" "cache_time s1 = cache_time s2"
        "width s1 = width s2" "height s1 = height s2" "format s1 = format s2"
        "divider s1 \<noteq> divider s2"
    unfolding one_field_differs_def by (simp split: if_splits)
  then show ?thesis
  proof cases
    case name
    then show ?thesis by (simp add: cache_message_def)
  next
    case time
    then show ?thesis by (auto simp: cache_message_def dest: number_inj)
  next
    case width
    then show ?thesis by (auto simp: cache_message_def dest: number_inj)
  next
    case height
    then show ?thesis by (auto simp: cache_message_def dest: number_inj)
  next
    case format
    then show ?thesis by (auto simp: cache_message_def dest: number_inj)
  next
    case divider
    then show ?thesis by (auto simp: cache_message_def dest: number_inj)
  qed
qed

text \<open>
  The SHA-1 digests of two messages, computed stage by stage: padding, words, schedule
  and the eighty rounds.
\<close>

lemma sha1_schedule_step:
  "0 < n \<Longrightarrow>
   sha1_schedule n ws =
     sha1_schedule (n - 1)
       (ws @ [rotl32 1 (ws ! (length ws - 3) XOR ws ! (length ws - 8)
                XOR ws ! (length ws - 14) XOR ws ! (length ws - 16))])"
  by (cases n) simp_all

lemma sha1_rounds_step:
  "foldl sha1_round h (zip [t..<80] ws) =
     (if t < 80 then
        (case ws of
           [] \<Rightarrow> h
         | w # ws' \<Rightarrow> foldl sha1_round (sha1_round h (t, w)) (zip [Suc t..<80] ws'))
      else h)"
  by (cases ws) (simp_all add: upt_conv_Cons)

lemma sha1_one_block:
  assumes "sha1_pad msg = padded" "length padded = 64" "be_words padded = ws"
    and "sha1_schedule 64 ws = w"
    and "foldl sha1_round (0x67452301, 0xEFCDAB89, 0x98BADCFE, 0x10325476, 0xC3D2E1F0)
           (zip [0..<80] w) = r"
  shows "sha1 msg =
     sha1_out (sha1_add (0x67452301, 0xEFCDAB89, 0x98BADCFE, 0x10325476, 0xC3D2E1F0) r)"
proof -
  have "sha1_blocks (length padded div 64) h padded = sha1_block h padded" for h
    using assms(2) by simp
  then show ?thesis
    using assms by (simp add: sha1_def sha1_block_def)
qed

lemma upt_0_4: "[0..<4] = [0, 1, 2, 3]"
  by (simp add: upt_conv_Cons)

lemma sha1_pad_divider_1:
  "sha1_pad ''seq10001920108001'' =
     [115, 101, 113, 49, 48, 48, 48, 49, 57, 50, 48, 49, 48, 56, 48, 48, 49, 128, 0, 0, 0, 0, 0,
     0, 0, 0, 0, 0, 0, 0, 0, 0, 0, 0, 0, 0, 0, 0, 0, 0, 0, 0, 0, 0, 0, 0, 0, 0, 0, 0, 0, 0,
     0, 0, 0, 0, 0, 0, 0, 0, 0, 0, 0, 136]"
  by code_simp

lemma be_words_divider_1:
  "be_words
     [115, 101, 113, 49, 48, 48, 48, 49, 57, 50, 48, 49, 48, 56, 48, 48, 49, 128, 0, 0, 0, 0, 0,
     0, 0, 0, 0, 0, 0, 0, 0, 0, 0, 0, 0, 0, 0, 0, 0, 0, 0, 0, 0, 0, 0, 0, 0, 0, 0, 0, 0, 0,
     0, 0, 0, 0, 0, 0, 0, 0, 0, 0, 0, 136] =
     [1936027953, 808464433, 959590449, 808988720, 830472192, 0, 0, 0, 0, 0, 0, 0, 0, 0, 0,
     136]"
  by code_simp

lemma sha1_schedule_divider_1:
  "sha1_schedule 64
     [1936027953, 808464433, 959590449, 808988720, 830472192, 0, 0, 0, 0, 0, 0, 0, 0, 0, 0,
     136] =
     [1936027953, 808464433, 959590449, 808988720, 830472192, 0, 0, 0, 0, 0, 0, 0, 0, 0, 0, 136,
     2494464512, 1048578, 291791218, 1227711585, 1663041540, 583582436, 2455423170,
     3326083352, 1825341897, 613781889, 2924003541, 1271122768, 2406163210, 419431795,
     2590966564, 2457224496, 3758935953, 4019187085, 2633353510, 2153071753, 591137923,
     3271171922, 3377995085, 2805969492, 3236242367, 2466468898, 903033178, 619139626,
     1249308959, 4173257878, 800655269, 560060397, 2303062844, 2797729031, 1458980389,
     3726374299, 228993964, 2535092075, 4030699929, 838218862, 3604159845, 3258242349,
     827024412, 2837630085, 1421480055, 4280025112, 4290986763, 3319270887, 3975762121,
     2321231220, 1602619621, 431230328, 1190207084, 216836080, 2167903519, 3789022608,
     253435008, 3237299078, 3074503229, 2166602442, 1526340908, 47394917, 643594286,
     3915231327]"
  by (simp add: sha1_schedule_step rotl32_def)

lemma sha1_rounds_divider_1:
  "foldl sha1_round (0x67452301, 0xEFCDAB89, 0x98BADCFE, 0x10325476, 0xC3D2E1F0)
     (zip [0..<80]
     [1936027953, 808464433, 959590449, 808988720, 830472192, 0, 0, 0, 0, 0, 0, 0, 0, 0, 0, 136,
     2494464512, 1048578, 291791218, 1227711585, 1663041540, 583582436, 2455423170,
     3326083352, 1825341897, 613781889, 2924003541, 1271122768, 2406163210, 419431795,
     2590966564, 2457224496, 3758935953, 4019187085, 2633353510, 2153071753, 591137923,
     3271171922, 3377995085, 2805969492, 3236242367, 2466468898, 903033178, 619139626,
     1249308959, 4173257878, 800655269, 560060397, 2303062844, 2797729031, 1458980389,
     3726374299, 228993964, 2535092075, 4030699929, 838218862, 3604159845, 3258242349,
     827024412, 2837630085, 1421480055, 4280025112, 4290986763, 3319270887, 3975762121,
     2321231220, 1602619621, 431230328, 1190207084, 216836080, 2167903519, 3789022608,
     253435008, 3237299078, 3074503229, 2166602442, 1526340908, 47394917, 643594286,
     3915231327]) =
     (161102310, 1479987244, 2124460660, 1702225106, 3383018417)"
  by (simp add: sha1_rounds_step sha1_f_def sha1_k_def rotl32_def)

lemma sha1_divider_1:
  "sha1 ''seq10001920108001'' =
     [112, 223, 92, 231, 72, 4, 123, 181, 23, 91, 143, 114, 117, 168, 57, 72, 141, 119, 165,
     161]"
  by (simp add: sha1_one_block [OF sha1_pad_divider_1 _ be_words_divider_1 sha1_schedule_divider_1 sha1_rounds_divider_1] upt_0_4)

lemma sha1_pad_divider_2:
  "sha1_pad ''seq10001920108002'' =
     [115, 101, 113, 49, 48, 48, 48, 49, 57, 50, 48, 49, 48, 56, 48, 48, 50, 128, 0, 0, 0, 0, 0,
     0, 0, 0, 0, 0, 0, 0, 0, 0, 0, 0, 0, 0, 0, 0, 0, 0, 0, 0, 0, 0, 0, 0, 0, 0, 0, 0, 0, 0,
     0, 0, 0, 0, 0, 0, 0, 0, 0, 0, 0, 136]"
  by code_simp

lemma be_words_divider_2:
  "be_words
     [115, 101, 113, 49, 48, 48, 48, 49, 57, 50, 48, 49, 48, 56, 48, 48, 50, 128, 0, 0, 0, 0, 0,
     0, 0, 0, 0, 0, 0, 0, 0, 0, 0, 0, 0, 0, 0, 0, 0, 0, 0, 0, 0, 0, 0, 0, 0, 0, 0, 0, 0, 0,
     0, 0, 0, 0, 0, 0, 0, 0, 0, 0, 0, 136] =
     [1936027953, 808464433, 959590449, 808988720, 847249408, 0, 0, 0, 0, 0, 0, 0, 0, 0, 0,
     136]"
  by code_simp

lemma sha1_schedule_divider_2:
  "sha1_schedule 64
     [1936027953, 808464433, 959590449, 808988720, 847249408, 0, 0, 0, 0, 0, 0, 0, 0, 0, 0,
     136] =
     [1936027953, 808464433, 959590449, 808988720, 847249408, 0, 0, 0, 0, 0, 0, 0, 0, 0, 0, 136,
     2494464512, 1048578, 392454514, 1227711585, 1696595972, 784909028, 2455423170,
     3393192216, 1959559625, 613781889, 3125330133, 2076429136, 2204836618, 687867251,
     4201579300, 2457224496, 3154956177, 797961613, 3036006694, 1079329929, 3074165890,
     4076478290, 3109559628, 2537534039, 15016895, 2466468897, 903033180, 619139626,
     3128357146, 4173257882, 3082356647, 560060385, 3779457829, 2529293572, 787891762,
     3994809768, 1168518048, 1729785691, 3225393657, 3254137966, 1725111611, 3258242541,
     3242943540, 2837630022, 347738593, 4280025128, 2143502970, 3319271124, 2902020104,
     2321231479, 3750104804, 431230331, 921770910, 216837107, 2167904135, 3789023635,
     253429224, 3237298358, 3611370821, 2166589946, 989466983, 3268608149, 2791053343,
     694005935]"
  by (simp add: sha1_schedule_step rotl32_def)

lemma sha1_rounds_divider_2:
  "foldl sha1_round (0x67452301, 0xEFCDAB89, 0x98BADCFE, 0x10325476, 0xC3D2E1F0)
     (zip [0..<80]
     [1936027953, 808464433, 959590449, 808988720, 847249408, 0, 0, 0, 0, 0, 0, 0, 0, 0, 0, 136,
     2494464512, 1048578, 392454514, 1227711585, 1696595972, 784909028, 2455423170,
     3393192216, 1959559625, 613781889, 3125330133, 2076429136, 2204836618, 687867251,
     4201579300, 2457224496, 3154956177, 797961613, 3036006694, 1079329929, 3074165890,
     4076478290, 3109559628, 2537534039, 15016895, 2466468897, 903033180, 619139626,
     3128357146, 4173257882, 3082356647, 560060385, 3779457829, 2529293572, 787891762,
     3994809768, 1168518048, 1729785691, 3225393657, 3254137966, 1725111611, 3258242541,
     3242943540, 2837630022, 347738593, 4280025128, 2143502970, 3319271124, 2902020104,
     2321231479, 3750104804, 431230331, 921770910, 216837107, 2167904135, 3789023635,
     253429224, 3237298358, 3611370821, 2166589946, 989466983, 3268608149, 2791053343,
     694005935]) =
     (4160175555, 2373880592, 1583176797, 3989042656, 3426393766)"
  by (simp add: sha1_rounds_step sha1_f_def sha1_k_def rotl32_def)

lemma sha1_divider_2:
  "sha1 ''seq10001920108002'' =
     [95, 60, 96, 196, 125, 76, 54, 153, 247, 24, 57, 91, 253, 246, 74, 86, 144, 13, 128, 150]"
  by (simp add: sha1_one_block [OF sha1_pad_divider_2 _ be_words_divider_2 sha1_schedule_divider_2 sha1_rounds_divider_2] upt_0_4)

section \<open>Properties of the scheduler\<close>

lemma enqueue_loop_distinct_imp:
  assumes "enqueue_loop tb e r q = Some q'"
  shows "distinct q \<longrightarrow> distinct q'"
proof (rule enqueue_loop.raw_induct [where P = "\<lambda>tb e r q q'. distinct q \<longrightarrow> distinct q'", OF _ assms])
  fix f tb e r q q'
  assume IH: "\<And>tb e r q q'. f tb e r q = Some q' \<Longrightarrow> distinct q \<longrightarrow> distinct q'"
    and eq: "(if r \<le> e then f tb e (r + tb) (if r \<in> set q then q else q @ [r]) else Some q) = Some q'"
  show "distinct q \<longrightarrow> distinct q'"
  proof (cases "r \<le> e")
    case True
    with eq IH [of tb e "r + tb" "if r \<in> set q then q else q @ [r]" q'] show ?thesis
      by (auto split: if_splits)
  next
    case False
    with eq show ?thesis by simp
  qed
qed

lemma enqueue_loop_distinct:
  "enqueue_loop tb e r q = Some q' \<Longrightarrow> distinct q \<Longrightarrow> distinct q'"
  using enqueue_loop_distinct_imp by blast

lemma Start_cache_queue: "cache_queue (Start env s) = cache_queue s"
  by (simp add: Start_def Let_def)

lemma Stop_cache_queue: "cache_queue (Stop s) = cache_queue s"
  by (simp add: Stop_def)

lemma GenerateCacheIDInternal_cache_queue:
  "cache_queue (GenerateCacheIDInternal s) = cache_queue s"
  by (simp add: GenerateCacheIDInternal_def)

lemma CalculateEffectiveDimensions_cache_queue:
  "CalculateEffectiveDimensions s = Inr s' \<Longrightarrow> cache_queue s' = cache_queue s"
  by (auto simp: CalculateEffectiveDimensions_def split: sum.splits)

lemma CacheNext_distinct:
  "CacheNext env s = Inr s' \<Longrightarrow> distinct (cache_queue s) \<Longrightarrow> distinct (cache_queue s')"
  by (auto simp: CacheNext_def Let_def Start_cache_queue split: list.splits option.splits if_splits)

lemma CachePathName_cache_queue: "cache_queue (snd (CachePathName env s t)) = cache_queue s"
  by (simp add: CachePathName_def Let_def)

lemma ThreadCallback_distinct:
  "ThreadCallback env s sender tex = Inr s' \<Longrightarrow> distinct (cache_queue s) \<Longrightarrow>
   distinct (cache_queue s')"
  by (auto simp: ThreadCallback_def Let_def CachePathName_cache_queue
        split: if_splits option.splits dest!: CacheNext_distinct)

lemma InvalidateCache_distinct:
  assumes "InvalidateCache env s a b = Some (Inr s')" "distinct (cache_queue s)"
  shows "distinct (cache_queue s')"
proof -
  from assms(1) obtain r0 q where
    loop: "enqueue_loop (timebase s) b r0 (cache_queue s) = Some q"
    and nxt: "CacheNext env (s\<lparr>cache_queue := q\<rparr>) = Inr s'"
    by (auto simp: InvalidateCache_def split: sum.splits option.splits)
  from loop assms(2) have "distinct q" by (rule enqueue_loop_distinct)
  with nxt show ?thesis by (auto dest: CacheNext_distinct)
qed

lemma Value_cache_queue:
  "Value env s out t = Inr (v, w, s') \<Longrightarrow> cache_queue s' = cache_queue s"
  by (auto simp: Value_def Let_def CachePathName_cache_queue
        split: if_splits option.splits sum.splits)

lemma step_distinct:
  assumes "step env s ev = Some (Inr s')" "distinct (cache_queue s)"
  shows "distinct (cache_queue s')"
proof (cases ev)
  case (EvValue out t)
  with assms show ?thesis by (auto split: sum.splits dest: Value_cache_queue)
next
  case (EvInvalidateCache a b)
  with assms show ?thesis by (auto dest: InvalidateCache_distinct)
next
  case (EvSetParameters w h f m d)
  with assms show ?thesis
    by (auto simp: SetParameters_def Let_def GenerateCacheIDInternal_cache_queue Stop_cache_queue
          split: sum.splits if_splits dest!: CalculateEffectiveDimensions_cache_queue)
next
  case (EvSetDivider d)
  with assms show ?thesis
    by (auto simp: SetDivider_def GenerateCacheIDInternal_cache_queue Stop_cache_queue
          split: sum.splits if_splits dest!: CalculateEffectiveDimensions_cache_queue)
next
  case (EvDeliver tex)
  with assms show ?thesis
    by (auto simp: deliver_def split: list.splits dest!: ThreadCallback_distinct)
next
  case (EvWorkerDone i)
  with assms show ?thesis
    by (auto simp: worker_done_def split: list.splits if_splits)
next
  case (EvDownloadDone i)
  with assms show ?thesis
    by (auto simp: download_done_def split: list.splits if_splits)
qed (use assms in \<open>auto simp: SetCacheName_def GenerateCacheIDInternal_cache_queue Release_def
      Stop_cache_queue SetTimebase_def Start_cache_queue ThreadRequestSibling_def\<close>)

lemma in_flight_zero_iff:
  "primary_in_flight s = 0 \<longleftrightarrow>
     (\<forall>t \<in> set (threads s). filter snd (thread_queue t) = []) \<and>
     (\<forall>sid \<in> set (pending_signals s). sid \<notin> thread_id ` set (threads s))"
  by (auto simp: primary_in_flight_def filter_empty_conv)

lemma scheduler_invariant_cong:
  "threads s' = threads s \<Longrightarrow> pending_signals s' = pending_signals s \<Longrightarrow>
   next_thread_id s' = next_thread_id s \<Longrightarrow> master_thread s' = master_thread s \<Longrightarrow>
   caching s' = caching s \<Longrightarrow> scheduler_invariant s' = scheduler_invariant s"
  by (simp add: scheduler_invariant_def primary_in_flight_def)

lemma primary_in_flight_cong:
  "threads s' = threads s \<Longrightarrow> pending_signals s' = pending_signals s \<Longrightarrow>
   primary_in_flight s' = primary_in_flight s"
  by (simp add: primary_in_flight_def)

lemma Start_invariant:
  assumes "scheduler_invariant s"
  shows "scheduler_invariant (Start env s)"
proof (cases "started s")
  case True
  with assms show ?thesis by (simp add: Start_def)
next
  case False
  let ?n = "nat (idealThreadCount env)"
  let ?ts = "map (\<lambda>i. \<lparr>thread_id = next_thread_id s + i, thread_queue = []\<rparr>) [0..<?n]"
  have th: "threads (Start env s) = ?ts"
    and ps: "pending_signals (Start env s) = pending_signals s"
    and nx: "next_thread_id (Start env s) = next_thread_id s + ?n"
    using False by (simp_all add: Start_def Let_def)
  have old: "\<forall>sid \<in> set (pending_signals s). sid < next_thread_id s"
    using assms by (simp add: scheduler_invariant_def)
  have dead: "\<forall>sid \<in> set (pending_signals s). sid \<notin> thread_id ` set ?ts"
    using old by auto
  have zero: "primary_in_flight (Start env s) = 0"
    unfolding in_flight_zero_iff th ps using dead by auto
  show ?thesis
    unfolding scheduler_invariant_def zero unfolding th ps nx
    using old dead by auto
qed

lemma Start_caching: "caching (Start env s) = caching s"
  by (simp add: Start_def Let_def)

lemma Stop_invariant:
  assumes "scheduler_invariant s"
  shows "scheduler_invariant (Stop s)"
proof (cases "started s")
  case False
  with assms show ?thesis by (simp add: Stop_def)
next
  case True
  then have th: "threads (Stop s) = []"
    and ps: "pending_signals (Stop s) = pending_signals s"
    and nx: "next_thread_id (Stop s) = next_thread_id s"
    by (simp_all add: Stop_def)
  have zero: "primary_in_flight (Stop s) = 0"
    unfolding in_flight_zero_iff th by simp
  show ?thesis
    unfolding scheduler_invariant_def zero unfolding th ps nx
    using assms by (simp add: scheduler_invariant_def)
qed

lemma CacheNext_invariant:
  assumes inv: "scheduler_invariant s" and nxt: "CacheNext env s = Inr s'"
  shows "scheduler_invariant s'"
proof (cases "cache_queue s = [] \<or> texture_input s = None \<or> caching s")
  case True
  with nxt have "s' = s"
    by (auto simp: CacheNext_def split: list.splits option.splits)
  with inv show ?thesis by simp
next
  case False
  then obtain first rest out where q: "cache_queue s = first # rest"
    and c: "texture_input s = Some out" and nc: "\<not> caching s"
    by (cases "cache_queue s") auto
  let ?s0 = "Start env s"
  have inv0: "scheduler_invariant ?s0" using inv by (rule Start_invariant)
  have "\<not> caching ?s0" using nc by (simp add: Start_caching)
  with inv0 have zero: "primary_in_flight ?s0 = 0"
    by (auto simp: scheduler_invariant_def)
  from nxt q c nc obtain t ts where ts: "threads ?s0 = t # ts"
    and s': "s' = ?s0\<lparr>cache_frame := first, cache_queue := rest,
               master_thread := Some (thread_id t),
               threads := t\<lparr>thread_queue := thread_queue t
                              @ [(\<lparr>dep_output = out, dep_time = first\<rparr>, True)]\<rparr> # ts,
               caching := True\<rparr>"
    by (auto simp: CacheNext_def Let_def split: list.splits)
  from zero ts have tq: "filter snd (thread_queue t) = []"
    and tsq: "\<forall>u \<in> set ts. filter snd (thread_queue u) = []"
    and dead: "\<forall>sid \<in> set (pending_signals ?s0). sid \<noteq> thread_id t \<and> sid \<notin> thread_id ` set ts"
    by (auto simp: in_flight_zero_iff)
  have one: "primary_in_flight s' = 1"
    using tq tsq dead by (auto simp: s' primary_in_flight_def filter_empty_conv)
  have bounds: "\<forall>u \<in> set (t # ts). thread_id u < next_thread_id ?s0"
    "\<forall>sid \<in> set (pending_signals ?s0). sid < next_thread_id ?s0"
    using inv0 ts by (auto simp: scheduler_invariant_def)
  show ?thesis
    unfolding scheduler_invariant_def one
    using bounds tsq dead by (auto simp: s')
qed

lemma CacheNext_frame_exI:
  "CacheNext env s3 = Inr s' \<Longrightarrow> P s3 \<Longrightarrow> \<exists>s3. P s3 \<and> CacheNext env s3 = Inr s'"
  by blast

lemma ThreadCallback_invariant:
  assumes inv: "scheduler_invariant s"
    and idle: "sender \<noteq> None \<and> sender = master_thread s \<longrightarrow> primary_in_flight s = 0"
    and cb: "ThreadCallback env s sender tex = Inr s'"
  shows "scheduler_invariant s'"
proof (cases "sender \<noteq> None \<and> sender = master_thread s")
  case False
  with cb have "s' = s" by (auto simp: ThreadCallback_def)
  with inv show ?thesis by simp
next
  case True
  with idle have zero: "primary_in_flight s = 0" by blast
  define P where "P = (\<lambda>s3 :: RendererProcessor. threads s3 = threads s \<and> pending_signals s3 = pending_signals s \<and>
      next_thread_id s3 = next_thread_id s \<and> master_thread s3 = master_thread s \<and>
      \<not> caching s3)"
  have P_upd: "P (s\<lparr>caching := False, cache_dirs := d, cache_files := f\<rparr>)"
    "P (s\<lparr>caching := False, cache_dirs := d, download_threads := dl,
          last_download_thread := l\<rparr>)" for d f dl l
    by (simp_all add: P_def)
  from cb True have "\<exists>s3. P s3 \<and> CacheNext env s3 = Inr s'"
    by (cases tex)
       (auto simp: ThreadCallback_def Let_def CachePathName_def P_upd split: if_splits
          elim!: CacheNext_frame_exI)
  then have "\<exists>s3. (threads s3 = threads s \<and> pending_signals s3 = pending_signals s \<and>
      next_thread_id s3 = next_thread_id s \<and> master_thread s3 = master_thread s \<and>
      \<not> caching s3) \<and> CacheNext env s3 = Inr s'"
    by (simp add: P_def)
  then obtain s3 where frame:
      "threads s3 = threads s" "pending_signals s3 = pending_signals s"
      "next_thread_id s3 = next_thread_id s" "master_thread s3 = master_thread s"
      "\<not> caching s3"
    and nxt: "CacheNext env s3 = Inr s'"
    by blast
  have "primary_in_flight s3 = 0"
    using zero frame by (simp add: primary_in_flight_def)
  then have "scheduler_invariant s3"
    using inv frame by (simp add: scheduler_invariant_def)
  then show ?thesis using nxt by (rule CacheNext_invariant)
qed

lemma deliver_invariant:
  assumes inv: "scheduler_invariant s" and d: "deliver env s tex = Inr s'"
  shows "scheduler_invariant s'"
proof (cases "pending_signals s")
  case Nil
  with d inv show ?thesis by (simp add: deliver_def)
next
  case (Cons sid rest)
  let ?m = "s\<lparr>pending_signals := rest\<rparr>"
  let ?alive = "sid \<in> thread_id ` set (threads s)"
  let ?sender = "if ?alive then Some sid else None"
  from d Cons have cb: "ThreadCallback env ?m ?sender tex = Inr s'"
    by (simp add: deliver_def)
  have le: "primary_in_flight ?m \<le> primary_in_flight s"
    using Cons by (simp add: primary_in_flight_def)
  have inv_m: "scheduler_invariant ?m"
    using inv Cons le by (auto simp: scheduler_invariant_def)
  have "primary_in_flight ?m = 0" if "?alive"
  proof -
    have "primary_in_flight s = Suc (primary_in_flight ?m)"
      using Cons that by (simp add: primary_in_flight_def)
    moreover have "primary_in_flight s \<le> 1"
      using inv by (simp add: scheduler_invariant_def)
    ultimately show ?thesis by simp
  qed
  then have "?sender \<noteq> None \<and> ?sender = master_thread ?m \<longrightarrow> primary_in_flight ?m = 0"
    by auto
  with inv_m show ?thesis using cb by (rule ThreadCallback_invariant)
qed

lemma queue_sibling_ids: "map thread_id (queue_sibling dep ts) = map thread_id ts"
  by (induction ts) auto

lemma queue_sibling_primaries:
  "map (\<lambda>t. filter snd (thread_queue t)) (queue_sibling dep ts)
     = map (\<lambda>t. filter snd (thread_queue t)) ts"
  by (induction ts) auto

lemma primaries_of_map:
  "map (\<lambda>t. length (filter snd (thread_queue t))) ts
     = map length (map (\<lambda>t. filter snd (thread_queue t)) ts)"
  by simp

lemma set_ids_of_map: "thread_id ` set ts = set (map thread_id ts)"
  by simp

lemma queue_sibling_master:
  "\<forall>t \<in> set ts. filter snd (thread_queue t) \<noteq> [] \<longrightarrow> P (thread_id t) \<Longrightarrow>
   \<forall>t \<in> set (queue_sibling dep ts). filter snd (thread_queue t) \<noteq> [] \<longrightarrow> P (thread_id t)"
  by (induction ts) auto

lemma queue_sibling_bound:
  "\<forall>t \<in> set ts. thread_id t < n \<Longrightarrow> \<forall>t \<in> set (queue_sibling dep ts). thread_id t < n"
  by (induction ts) auto

lemma ThreadRequestSibling_invariant:
  assumes "scheduler_invariant s"
  shows "scheduler_invariant (ThreadRequestSibling s dep)"
proof -
  let ?s' = "ThreadRequestSibling s dep"
  have ids: "thread_id ` set (threads ?s') = thread_id ` set (threads s)"
    unfolding set_ids_of_map by (simp add: ThreadRequestSibling_def queue_sibling_ids)
  have fl: "primary_in_flight ?s' = primary_in_flight s"
    unfolding primary_in_flight_def ids primaries_of_map
    by (simp add: ThreadRequestSibling_def queue_sibling_primaries)
  have rest: "pending_signals ?s' = pending_signals s" "next_thread_id ?s' = next_thread_id s"
    "master_thread ?s' = master_thread s" "caching ?s' = caching s"
    "threads ?s' = queue_sibling dep (threads s)"
    by (simp_all add: ThreadRequestSibling_def)
  show ?thesis
    unfolding scheduler_invariant_def fl ids unfolding rest
    using assms queue_sibling_master [of "threads s" "\<lambda>i. master_thread s = Some i" dep]
      queue_sibling_bound [of "threads s" "next_thread_id s" dep]
    by (simp add: scheduler_invariant_def)
qed

lemma worker_done_invariant:
  assumes inv: "scheduler_invariant s"
  shows "scheduler_invariant (worker_done s i)"
proof (cases "i < length (threads s) \<and> thread_queue (threads s ! i) \<noteq> []")
  case False
  then have "worker_done s i = s"
    by (auto simp: worker_done_def split: list.splits)
  with inv show ?thesis by simp
next
  case True
  let ?ts = "threads s"
  let ?t = "?ts ! i"
  let ?f = "\<lambda>t. length (filter snd (thread_queue t))"
  from True obtain dep p rest where q: "thread_queue ?t = (dep, p) # rest"
    by (cases "thread_queue ?t") auto
  let ?t' = "?t\<lparr>thread_queue := rest\<rparr>"
  let ?s' = "worker_done s i"
  have i: "i < length ?ts" using True by simp
  have mem: "?t \<in> set ?ts" using i by simp
  have th: "threads ?s' = ?ts[i := ?t']"
    and ps: "pending_signals ?s' = (if p then pending_signals s @ [thread_id ?t] else pending_signals s)"
    and rest: "next_thread_id ?s' = next_thread_id s" "master_thread ?s' = master_thread s"
      "caching ?s' = caching s"
    using i q by (simp_all add: worker_done_def)
  have ids: "thread_id ` set (?ts[i := ?t']) = thread_id ` set ?ts"
  proof -
    have "(map thread_id ?ts)[i := map thread_id ?ts ! i] = map thread_id ?ts"
      by (rule list_update_id)
    then have "map thread_id (?ts[i := ?t']) = map thread_id ?ts"
      using i by (simp add: map_update)
    then have "set (map thread_id (?ts[i := ?t'])) = set (map thread_id ?ts)" by simp
    then show ?thesis by simp
  qed
  have ft: "?f ?t = (if p then 1 else 0) + ?f ?t'" using q by simp
  have sum: "sum_list (map ?f (?ts[i := ?t'])) + (if p then 1 else 0) = sum_list (map ?f ?ts)"
  proof -
    have "sum_list ((map ?f ?ts)[i := ?f ?t']) = sum_list (map ?f ?ts) + ?f ?t' - (map ?f ?ts) ! i"
      using i by (intro sum_list_update) simp
    moreover have "(map ?f ?ts) ! i = ?f ?t" using i by simp
    moreover have "?f ?t \<le> sum_list (map ?f ?ts)"
      using mem by (simp add: member_le_sum_list)
    ultimately show ?thesis using ft by (simp add: map_update)
  qed
  have alive: "thread_id ?t \<in> thread_id ` set ?ts" using mem by blast
  have fl: "primary_in_flight ?s' = primary_in_flight s"
    unfolding primary_in_flight_def th ps ids using sum alive by (cases p) auto
  have sub: "set (?ts[i := ?t']) \<subseteq> insert ?t' (set ?ts)"
    by (rule set_update_subset_insert)
  have master: "master_thread s = Some (thread_id ?t)" if "filter snd (thread_queue ?t) \<noteq> []"
    using inv mem that by (auto simp: scheduler_invariant_def)
  have m': "filter snd (thread_queue u) \<noteq> [] \<longrightarrow> master_thread s = Some (thread_id u)"
    if "u \<in> set (?ts[i := ?t'])" for u
  proof (cases "u = ?t'")
    case True
    then show ?thesis using master q by auto
  next
    case False
    with that sub have "u \<in> set ?ts" by auto
    then show ?thesis using inv by (auto simp: scheduler_invariant_def)
  qed
  have b': "thread_id u < next_thread_id s" if "u \<in> set (?ts[i := ?t'])" for u
  proof -
    have "thread_id u \<in> thread_id ` set (?ts[i := ?t'])" using that by blast
    then have "thread_id u \<in> thread_id ` set ?ts" unfolding ids .
    then show ?thesis using inv by (auto simp: scheduler_invariant_def)
  qed
  have pm: "master_thread s = Some (thread_id ?t)" if p
    using master q that by simp
  show ?thesis
    unfolding scheduler_invariant_def fl unfolding th ps rest ids
    using inv m' b' pm mem
    by (auto simp: scheduler_invariant_def)
qed

lemma GenerateCacheIDInternal_invariant:
  "scheduler_invariant (GenerateCacheIDInternal s) = scheduler_invariant s"
  by (rule scheduler_invariant_cong) (simp_all add: GenerateCacheIDInternal_def)

lemma CalculateEffectiveDimensions_Inr:
  "CalculateEffectiveDimensions s = Inr s' \<Longrightarrow>
   \<exists>w h. s' = s\<lparr>effective_width := w, effective_height := h\<rparr>"
  by (auto simp: CalculateEffectiveDimensions_def split: sum.splits)

lemma CalculateEffectiveDimensions_invariant:
  assumes "CalculateEffectiveDimensions s = Inr s'"
  shows "scheduler_invariant s' = scheduler_invariant s"
proof -
  from assms obtain w h where "s' = s\<lparr>effective_width := w, effective_height := h\<rparr>"
    by (auto dest: CalculateEffectiveDimensions_Inr)
  then show ?thesis by (intro scheduler_invariant_cong) simp_all
qed

lemma Value_frame:
  "Value env s out t = Inr (v, w, s') \<Longrightarrow>
   threads s' = threads s \<and> pending_signals s' = pending_signals s \<and>
   next_thread_id s' = next_thread_id s \<and> master_thread s' = master_thread s \<and>
   caching s' = caching s"
  by (auto simp: Value_def Let_def CachePathName_def
        split: if_splits option.splits sum.splits)

lemma Value_invariant:
  "Value env s out t = Inr (v, w, s') \<Longrightarrow> scheduler_invariant s' = scheduler_invariant s"
  by (drule Value_frame) (simp add: scheduler_invariant_def primary_in_flight_def)

lemma InvalidateCache_invariant:
  assumes "InvalidateCache env s a b = Some (Inr s')" "scheduler_invariant s"
  shows "scheduler_invariant s'"
proof -
  from assms(1) obtain q where nxt: "CacheNext env (s\<lparr>cache_queue := q\<rparr>) = Inr s'"
    by (auto simp: InvalidateCache_def split: sum.splits option.splits)
  have "scheduler_invariant (s\<lparr>cache_queue := q\<rparr>) = scheduler_invariant s"
    by (rule scheduler_invariant_cong) simp_all
  with assms(2) nxt show ?thesis by (auto dest: CacheNext_invariant [rotated])
qed

lemma SetParameters_invariant:
  assumes "SetParameters s w h f m d = Inr s'" "scheduler_invariant s"
  shows "scheduler_invariant s'"
proof -
  let ?s1 = "Stop s"
  let ?s3 = "if 0 < d then ?s1\<lparr>width := w, height := h, format := f, mode := m, divider := d\<rparr>
             else ?s1\<lparr>width := w, height := h, format := f, mode := m\<rparr>"
  from assms(1) obtain s4 where c: "CalculateEffectiveDimensions ?s3 = Inr s4"
    and s': "s' = GenerateCacheIDInternal s4"
    by (auto simp: SetParameters_def Let_def split: sum.splits if_splits)
  have "scheduler_invariant ?s3 = scheduler_invariant ?s1"
    by (rule scheduler_invariant_cong) simp_all
  then have "scheduler_invariant ?s3" using assms(2) by (simp add: Stop_invariant)
  then show ?thesis
    using c s' by (simp add: GenerateCacheIDInternal_invariant CalculateEffectiveDimensions_invariant)
qed

lemma SetDivider_invariant:
  assumes "SetDivider env s d = Inr s'" "scheduler_invariant s"
  shows "scheduler_invariant s'"
proof -
  let ?s1 = "Stop s"
  from assms(1) obtain s4 where c: "CalculateEffectiveDimensions (?s1\<lparr>divider := d\<rparr>) = Inr s4"
    and s': "s' = GenerateCacheIDInternal s4"
    by (auto simp: SetDivider_def split: sum.splits if_splits)
  have "scheduler_invariant (?s1\<lparr>divider := d\<rparr>) = scheduler_invariant ?s1"
    by (rule scheduler_invariant_cong) simp_all
  then have "scheduler_invariant (?s1\<lparr>divider := d\<rparr>)" using assms(2) by (simp add: Stop_invariant)
  then show ?thesis
    using c s' by (simp add: GenerateCacheIDInternal_invariant CalculateEffectiveDimensions_invariant)
qed

lemma step_invariant:
  assumes "step env s ev = Some (Inr s')" "scheduler_invariant s"
  shows "scheduler_invariant s'"
proof (cases ev)
  case (EvSetCacheName name now)
  have "scheduler_invariant (s\<lparr>cache_name := name, cache_time := now\<rparr>) = scheduler_invariant s"
    by (rule scheduler_invariant_cong) simp_all
  with assms EvSetCacheName show ?thesis
    by (auto simp: SetCacheName_def GenerateCacheIDInternal_invariant)
next
  case (EvValue out t)
  with assms show ?thesis by (auto split: sum.splits dest: Value_invariant)
next
  case EvRelease
  with assms show ?thesis by (auto simp: Release_def Stop_invariant)
next
  case (EvInvalidateCache a b)
  with assms show ?thesis by (auto dest: InvalidateCache_invariant)
next
  case (EvSetTimebase tb)
  have "scheduler_invariant (SetTimebase s tb) = scheduler_invariant s"
    by (rule scheduler_invariant_cong) (simp_all add: SetTimebase_def)
  with assms EvSetTimebase show ?thesis by auto
next
  case (EvSetParameters w h f m d)
  with assms show ?thesis by (auto dest: SetParameters_invariant)
next
  case (EvSetDivider d)
  with assms show ?thesis by (auto dest: SetDivider_invariant)
next
  case EvStart
  with assms show ?thesis by (auto simp: Start_invariant)
next
  case EvStop
  with assms show ?thesis by (auto simp: Stop_invariant)
next
  case (EvDeliver tex)
  with assms show ?thesis by (auto dest: deliver_invariant [rotated])
next
  case (EvRequestSibling dep)
  with assms show ?thesis by (auto simp: ThreadRequestSibling_invariant)
next
  case (EvWorkerDone i)
  with assms show ?thesis by (auto simp: worker_done_invariant)
next
  case (EvDownloadDone i)
  have "scheduler_invariant (download_done s i) = scheduler_invariant s"
    by (rule scheduler_invariant_cong) (auto simp: download_done_def split: list.splits)
  with assms EvDownloadDone show ?thesis by auto
next
  case (EvConnect out)
  have "scheduler_invariant (s\<lparr>texture_input := out\<rparr>) = scheduler_invariant s"
    by (rule scheduler_invariant_cong) simp_all
  with assms EvConnect show ?thesis by auto
qed

lemma constructed_invariant: "constructed s \<Longrightarrow> scheduler_invariant s"
  by (simp add: constructed_def scheduler_invariant_def primary_in_flight_def)

lemma reachable_invariant: "reachable env s \<Longrightarrow> scheduler_invariant s"
  by (induction rule: reachable.induct) (auto intro: constructed_invariant step_invariant)

lemma constructed_new_processor: "constructed new_processor"
  by (simp add: constructed_def new_processor_def)

lemma toDouble_0: "toDouble 0 = 0"
  by code_simp

lemma true_start_range_frac_0: "true_start_range (1 / 24) 0 = Inr 0"
  by code_simp

lemma enqueue_loop_0_0: "enqueue_loop (1 / 24) 0 0 [] = Some [0]"
  by (subst enqueue_loop.simps, simp, subst enqueue_loop.simps, simp)

lemma enqueue_loop_0_12: "enqueue_loop (1 / 24) (1 / 12) 0 [] = Some [0, 1 / 24, 1 / 12]"
  by (simp add: enqueue_loop.simps)

lemma upt_0_2: "[0..<2] = [0, Suc 0]"
  by (simp add: numeral_2_eq_2)

lemma ex1:
  "\<exists>s. step example_env (SetTimebase (new_processor\<lparr>texture_input := Some 7\<rparr>) (1 / 24))
          (EvInvalidateCache 0 0) = Some (Inr s) \<and> primary_in_flight s = 1 \<and> caching s"
  by (simp add: InvalidateCache_def SetTimebase_def new_processor_def true_start_range_frac_0
        enqueue_loop_0_0 CacheNext_def Start_def example_env_def Let_def primary_in_flight_def
        upt_0_2)

lemma CacheNext_while_caching: "caching s \<Longrightarrow> CacheNext env s = Inr s"
  by (simp add: CacheNext_def split: list.splits option.splits)

lemma CacheNext_changed:
  assumes "CacheNext env s = Inr s'" "s' \<noteq> s"
  shows "\<not> caching s \<and> caching s' \<and> cache_queue s \<noteq> [] \<and> texture_input s \<noteq> None"
  using assms
  by (auto simp: CacheNext_def Let_def split: list.splits option.splits if_splits)

lemma CacheNext_in_flight:
  assumes inv: "scheduler_invariant s" and nxt: "CacheNext env s = Inr s'" and ch: "s' \<noteq> s"
  shows "primary_in_flight s' = 1"
proof -
  from nxt ch have inv': "scheduler_invariant s'" and c: "caching s'" and nc: "\<not> caching s"
    using inv by (auto dest: CacheNext_invariant [rotated] CacheNext_changed)
  from nxt ch obtain t ts where "threads s' = t # ts" "filter snd (thread_queue t) \<noteq> []"
    by (auto simp: CacheNext_def Let_def split: list.splits option.splits if_splits)
  then have "0 < primary_in_flight s'"
    by (simp add: primary_in_flight_def)
  with inv' show ?thesis by (simp add: scheduler_invariant_def)
qed

lemma Stop_caching: "caching (Stop s) = caching s"
  by (simp add: Stop_def)

lemma GenerateCacheIDInternal_caching: "caching (GenerateCacheIDInternal s) = caching s"
  by (simp add: GenerateCacheIDInternal_def)

lemma CalculateEffectiveDimensions_caching:
  "CalculateEffectiveDimensions s = Inr s' \<Longrightarrow> caching s' = caching s"
  by (auto dest: CalculateEffectiveDimensions_Inr)

lemma step_clears_caching:
  assumes st: "step env s ev = Some (Inr s')" and c: "caching s" and nc: "\<not> caching s'"
  shows "\<exists>texture sid rest. ev = EvDeliver texture \<and> pending_signals s = sid # rest \<and>
           master_thread s = Some sid \<and> sid \<in> thread_id ` set (threads s)"
proof (cases ev)
  case (EvSetCacheName name now)
  with st c nc show ?thesis
    by (auto simp: SetCacheName_def GenerateCacheIDInternal_caching)
next
  case (EvValue out t)
  with st c nc show ?thesis by (auto split: sum.splits dest: Value_frame)
next
  case EvRelease
  with st c nc show ?thesis by (auto simp: Release_def Stop_caching)
next
  case (EvInvalidateCache a b)
  with st obtain q where "CacheNext env (s\<lparr>cache_queue := q\<rparr>) = Inr s'"
    by (auto simp: InvalidateCache_def split: sum.splits option.splits)
  moreover have "CacheNext env (s\<lparr>cache_queue := q\<rparr>) = Inr (s\<lparr>cache_queue := q\<rparr>)"
    using c by (intro CacheNext_while_caching) simp
  ultimately show ?thesis using c nc by auto
next
  case (EvSetTimebase tb)
  with st c nc show ?thesis by (auto simp: SetTimebase_def)
next
  case (EvSetParameters w h f m d)
  with st c nc show ?thesis
    by (auto simp: SetParameters_def Let_def GenerateCacheIDInternal_caching Stop_caching
          split: sum.splits if_splits dest!: CalculateEffectiveDimensions_caching)
next
  case (EvSetDivider d)
  with st c nc show ?thesis
    by (auto simp: SetDivider_def GenerateCacheIDInternal_caching Stop_caching
          split: sum.splits if_splits dest!: CalculateEffectiveDimensions_caching)
next
  case EvStart
  with st c nc show ?thesis by (auto simp: Start_caching)
next
  case EvStop
  with st c nc show ?thesis by (auto simp: Stop_caching)
next
  case (EvDeliver texture)
  show ?thesis
  proof (cases "pending_signals s")
    case Nil
    with st EvDeliver c nc show ?thesis by (simp add: deliver_def)
  next
    case (Cons sid rest)
    let ?sender = "if sid \<in> thread_id ` set (threads s) then Some sid else None"
    from st EvDeliver Cons
    have cb: "ThreadCallback env (s\<lparr>pending_signals := rest\<rparr>) ?sender texture = Inr s'"
      by (simp add: deliver_def)
    have "?sender \<noteq> None \<and> ?sender = master_thread s"
    proof (rule ccontr)
      assume "\<not> ?thesis"
      with cb have "s' = s\<lparr>pending_signals := rest\<rparr>"
        by (auto simp: ThreadCallback_def split: if_splits)
      with c nc show False by simp
    qed
    with EvDeliver Cons show ?thesis by (auto split: if_splits)
  qed
next
  case (EvRequestSibling dep)
  with st c nc show ?thesis by (auto simp: ThreadRequestSibling_def)
next
  case (EvWorkerDone i)
  with st c nc show ?thesis by (auto simp: worker_done_def split: list.splits if_splits)
next
  case (EvDownloadDone i)
  with st c nc show ?thesis by (auto simp: download_done_def split: list.splits if_splits)
next
  case (EvConnect out)
  with st c nc show ?thesis by auto
qed

text \<open>
  C3: the invalidation queue never holds a timestamp twice. In every state that a
  processor can reach \<open>cache_queue\<close> is distinct; so a call of \<open>InvalidateCache\<close> over a
  range whose grid holds a timestamp that is already queued adds no second entry for it.
\<close>

theorem cache_queue_never_duplicates:
  "reachable env s \<Longrightarrow> distinct (cache_queue s)"
proof (induction rule: reachable.induct)
  case (reachable_constructed s)
  then show ?case by (simp add: constructed_def)
next
  case (reachable_step s ev s')
  then show ?case by (auto dest: step_distinct)
qed

theorem cache_queue_never_duplicates_witness:
  "\<exists>s. step example_env (SetTimebase new_processor (1 / 24)) (EvInvalidateCache 0 (1 / 12))
          = Some (Inr s) \<and>
        reachable example_env s \<and> cache_queue s = [0, 1 / 24, 1 / 12] \<and>
        distinct (cache_queue s)"
proof -
  let ?s2 = "SetTimebase new_processor (1 / 24)"
  have r0: "reachable example_env new_processor"
    by (rule reachable_constructed) (rule constructed_new_processor)
  have r2: "reachable example_env ?s2"
    by (rule reachable_step [OF r0, of "EvSetTimebase (1 / 24)"]) simp
  have "\<exists>s. step example_env ?s2 (EvInvalidateCache 0 (1 / 12)) = Some (Inr s) \<and>
          cache_queue s = [0, 1 / 24, 1 / 12]"
    by (simp add: InvalidateCache_def SetTimebase_def new_processor_def true_start_range_frac_0
          enqueue_loop_0_12 CacheNext_def)
  then obtain s where st: "step example_env ?s2 (EvInvalidateCache 0 (1 / 12)) = Some (Inr s)"
    and q: "cache_queue s = [0, 1 / 24, 1 / 12]"
    by blast
  have r3: "reachable example_env s"
    by (rule reachable_step [OF r2 st])
  from cache_queue_never_duplicates [OF r3] st r3 q show ?thesis by blast
qed

text \<open>
  C4: in every reachable state at most one primary render is in flight, and while one
  is, \<open>caching\<close> is set. \<open>CacheNext\<close> changes nothing while \<open>caching\<close> is set; when it
  does dispatch, it sets \<open>caching\<close>, and exactly one primary render is then in flight.
  The only event that finds \<open>caching\<close> set and leaves it clear is the delivery of a
  completion signal whose sender is the living master worker.
\<close>

theorem one_primary_render_in_flight:
  assumes "reachable env s"
  shows "primary_in_flight s \<le> 1 \<and> (0 < primary_in_flight s \<longrightarrow> caching s) \<and>
    (\<forall>s'. CacheNext env s = Inr s' \<longrightarrow>
       (caching s \<longrightarrow> s' = s) \<and> (s' \<noteq> s \<longrightarrow> caching s' \<and> primary_in_flight s' = 1)) \<and>
    (\<forall>ev s'. step env s ev = Some (Inr s') \<and> caching s \<and> \<not> caching s' \<longrightarrow>
       (\<exists>texture sid rest. ev = EvDeliver texture \<and> pending_signals s = sid # rest \<and>
          master_thread s = Some sid \<and> sid \<in> thread_id ` set (threads s)))"
proof (intro conjI allI impI)
  have inv: "scheduler_invariant s" using assms by (rule reachable_invariant)
  show "primary_in_flight s \<le> 1"
    using inv by (simp add: scheduler_invariant_def)
  show "caching s" if "0 < primary_in_flight s"
    using inv that by (simp add: scheduler_invariant_def)
  show "s' = s" if "CacheNext env s = Inr s'" "caching s" for s'
    using that CacheNext_while_caching [of s env] by simp
  show "caching s'" if "CacheNext env s = Inr s'" "s' \<noteq> s" for s'
    using CacheNext_changed [OF that] by simp
  show "primary_in_flight s' = 1" if "CacheNext env s = Inr s'" "s' \<noteq> s" for s'
    using inv that by (rule CacheNext_in_flight)
  show "\<exists>texture sid rest. ev = EvDeliver texture \<and> pending_signals s = sid # rest \<and>
          master_thread s = Some sid \<and> sid \<in> thread_id ` set (threads s)"
    if "step env s ev = Some (Inr s') \<and> caching s \<and> \<not> caching s'" for ev s'
    using that step_clears_caching [of env s ev s'] by blast
qed

theorem one_primary_render_in_flight_witness:
  "\<exists>s. step example_env (SetTimebase (new_processor\<lparr>texture_input := Some 7\<rparr>) (1 / 24))
          (EvInvalidateCache 0 0) = Some (Inr s) \<and>
        reachable example_env s \<and> primary_in_flight s = 1 \<and> caching s \<and>
        CacheNext example_env s = Inr s \<and> primary_in_flight s \<le> 1"
proof -
  let ?s1 = "new_processor\<lparr>texture_input := Some 7\<rparr>"
  let ?s2 = "SetTimebase ?s1 (1 / 24)"
  have r0: "reachable example_env new_processor"
    by (rule reachable_constructed) (rule constructed_new_processor)
  have r1: "reachable example_env ?s1"
    by (rule reachable_step [OF r0, of "EvConnect (Some 7)"]) simp
  have r2: "reachable example_env ?s2"
    by (rule reachable_step [OF r1, of "EvSetTimebase (1 / 24)"]) simp
  obtain s where st: "step example_env ?s2 (EvInvalidateCache 0 0) = Some (Inr s)"
    and fl: "primary_in_flight s = 1" and c: "caching s"
    using ex1 by blast
  have r3: "reachable example_env s"
    by (rule reachable_step [OF r2 st])
  have "CacheNext example_env s = Inr s"
    using c by (rule CacheNext_while_caching)
  moreover have "primary_in_flight s \<le> 1"
    using one_primary_render_in_flight [OF r3] by blast
  ultimately show ?thesis using st r3 fl c by blast
qed

section \<open>Properties of the invalidation\<close>

lemma grid_points_Nil: "0 < tb \<Longrightarrow> \<not> r \<le> e \<Longrightarrow> grid_points tb r e = []"
proof -
  assume tb: "0 < tb" and "\<not> r \<le> e"
  then have "(e - r) / tb < 0" by (simp add: divide_neg_pos)
  then have "\<lfloor>(e - r) / tb\<rfloor> < 0" by (simp only: floor_less_iff of_int_0)
  then have "nat (\<lfloor>(e - r) / tb\<rfloor> + 1) = 0" by linarith
  then show ?thesis unfolding grid_points_def by simp
qed

lemma grid_points_Cons:
  assumes tb: "0 < tb" and le: "r \<le> e"
  shows "grid_points tb r e = r # grid_points tb (r + tb) e"
proof -
  let ?m = "\<lfloor>(e - r) / tb\<rfloor>"
  have nonneg: "0 \<le> ?m" using tb le by simp
  have "(e - (r + tb)) / tb = (e - r) / tb - 1"
    using tb by (simp add: field_simps)
  then have m': "\<lfloor>(e - (r + tb)) / tb\<rfloor> = ?m - 1" by simp
  have n: "nat (?m + 1) = Suc (nat ?m)" using nonneg by linarith
  have "grid_points tb r e = map (\<lambda>k. r + of_nat k * tb) [0..<Suc (nat ?m)]"
    by (simp add: grid_points_def n)
  also have "\<dots> = r # map (\<lambda>k. r + of_nat (Suc k) * tb) [0..<nat ?m]"
    by (simp add: upt_conv_Cons map_Suc_upt [symmetric] del: upt_Suc)
  also have "map (\<lambda>k. r + of_nat (Suc k) * tb) [0..<nat ?m] = grid_points tb (r + tb) e"
    by (simp add: grid_points_def m' algebra_simps)
  finally show ?thesis .
qed

lemma grid_points_greater:
  "0 < tb \<Longrightarrow> x \<in> set (grid_points tb (r + tb) e) \<Longrightarrow> r < x"
  by (auto simp: grid_points_def intro!: add_pos_nonneg mult_nonneg_nonneg)

lemma set_grid_points:
  assumes "0 < tb"
  shows "set (grid_points tb r0 e) = {r. \<exists>k::nat. r = r0 + of_nat k * tb \<and> r \<le> e}"
proof -
  let ?n = "nat (\<lfloor>(e - r0) / tb\<rfloor> + 1)"
  have iff: "k < ?n \<longleftrightarrow> r0 + of_nat k * tb \<le> e" for k :: nat
  proof -
    have "k < ?n \<longleftrightarrow> int k \<le> \<lfloor>(e - r0) / tb\<rfloor>" by linarith
    also have "\<dots> \<longleftrightarrow> of_int (int k) \<le> (e - r0) / tb" by (rule le_floor_iff)
    also have "\<dots> \<longleftrightarrow> of_nat k * tb \<le> e - r0"
      using assms by (simp add: pos_le_divide_eq)
    also have "\<dots> \<longleftrightarrow> r0 + of_nat k * tb \<le> e" by linarith
    finally show ?thesis .
  qed
  have "set (grid_points tb r0 e) = (\<lambda>k. r0 + of_nat k * tb) ` {k. k < ?n}"
    unfolding grid_points_def by (simp add: atLeast0LessThan lessThan_def)
  also have "\<dots> = {r. \<exists>k::nat. r = r0 + of_nat k * tb \<and> r \<le> e}"
    unfolding iff by blast
  finally show ?thesis .
qed

lemma distinct_grid_points: "0 < tb \<Longrightarrow> distinct (grid_points tb r0 e)"
  by (simp add: grid_points_def distinct_map inj_on_def)

lemma enqueue_loop_grid:
  assumes tb: "0 < tb"
  shows "enqueue_loop tb e r q = Some (q @ filter (\<lambda>x. x \<notin> set q) (grid_points tb r e))"
proof (induction "length (grid_points tb r e)" arbitrary: r q)
  case 0
  then have g: "grid_points tb r e = []" by simp
  have "\<not> r \<le> e"
  proof
    assume "r \<le> e"
    with tb g grid_points_Cons [of tb r e] show False by simp
  qed
  then show ?case by (subst enqueue_loop.simps) (simp add: g)
next
  case (Suc n)
  have le: "r \<le> e"
  proof (rule ccontr)
    assume "\<not> r \<le> e"
    with tb have "grid_points tb r e = []" by (rule grid_points_Nil)
    with Suc(2) show False by simp
  qed
  let ?G = "grid_points tb (r + tb) e"
  let ?q' = "if r \<in> set q then q else q @ [r]"
  have g: "grid_points tb r e = r # ?G" using tb le by (rule grid_points_Cons)
  with Suc(2) have "n = length ?G" by simp
  then have IH: "enqueue_loop tb e (r + tb) ?q' = Some (?q' @ filter (\<lambda>x. x \<notin> set ?q') ?G)"
    by (rule Suc(1))
  have notin: "r \<notin> set ?G" using grid_points_greater [OF tb, of r r e] by auto
  have f: "filter (\<lambda>x. x \<noteq> r \<and> x \<notin> set q) ?G = filter (\<lambda>x. x \<notin> set q) ?G"
    using notin by (intro filter_cong) auto
  have "enqueue_loop tb e r q = enqueue_loop tb e (r + tb) ?q'"
    using le by (subst enqueue_loop.simps) simp
  also note IH
  also have "?q' @ filter (\<lambda>x. x \<notin> set ?q') ?G = q @ filter (\<lambda>x. x \<notin> set q) (grid_points tb r e)"
    using f by (simp add: g)
  finally show ?case .
qed

lemma quotient_of_fraction: "r = of_int (numerator r) / of_int (denominator r)"
  unfolding numerator_def denominator_def
  by (cases "quotient_of r") (simp add: quotient_of_div)

lemma true_start_range_29_25: "true_start_range (1 / 25) (29 / 25) = Inr (28 / 25)"
  by code_simp

lemma qFloor_29_25:
  "qFloor (dbl_div (dbl_mul (toDouble (29 / 25)) (dbl_of_int (denominator (1 / 25))))
             (dbl_of_int (numerator (1 / 25)))) = Inr 28"
  by code_simp

lemma qFloor_3_100:
  "qFloor (dbl_div (dbl_mul (toDouble (3 / 100)) (dbl_of_int (denominator (1 / 24))))
             (dbl_of_int (numerator (1 / 24)))) = Inr 0"
  by code_simp

lemma exact_floor_29_25: "of_int \<lfloor>(29 / 25) / (1 / 25 :: rat)\<rfloor> * (1 / 25) = (29 / 25 :: rat)"
  by simp

lemma enqueue_loop_28_29: "enqueue_loop (1 / 25) (29 / 25) (28 / 25) [] = Some [28 / 25, 29 / 25]"
  by (simp add: enqueue_loop.simps)

lemma grid_points_example: "grid_points (1 / 24) 0 (9 / 100) = [0, 1 / 24, 1 / 12]"
proof -
  have "\<lfloor>(9 / 100 - 0 :: rat) / (1 / 24)\<rfloor> = 2" by code_simp
  then show ?thesis by (simp add: grid_points_def upt_conv_Cons)
qed

text \<open>
  With a timebase that is zero or negative the loop of \<open>InvalidateCache\<close> never ends
  when the snapped start is not after the end.
\<close>

lemma enqueue_loop_returns_imp:
  assumes "enqueue_loop tb e r q = Some q'"
  shows "\<not> (tb \<le> 0 \<and> r \<le> e)"
proof (rule enqueue_loop.raw_induct [where P = "\<lambda>tb e r q q'. \<not> (tb \<le> 0 \<and> r \<le> e)", OF _ assms])
  fix f :: "rat \<Rightarrow> rat \<Rightarrow> rat \<Rightarrow> rat list \<Rightarrow> rat list option" and tb e r q q'
  assume IH: "\<And>tb e r q q'. f tb e r q = Some q' \<Longrightarrow> \<not> (tb \<le> 0 \<and> r \<le> e)"
    and eq: "(if r \<le> e then f tb e (r + tb) (if r \<in> set q then q else q @ [r]) else Some q) = Some q'"
  show "\<not> (tb \<le> 0 \<and> r \<le> e)"
  proof
    assume a: "tb \<le> 0 \<and> r \<le> e"
    with eq have "f tb e (r + tb) (if r \<in> set q then q else q @ [r]) = Some q'" by simp
    then have "\<not> (tb \<le> 0 \<and> r + tb \<le> e)" by (rule IH)
    with a show False by linarith
  qed
qed

lemma enqueue_loop_never_returns:
  "tb \<le> 0 \<Longrightarrow> r \<le> e \<Longrightarrow> enqueue_loop tb e r q = None"
  using enqueue_loop_returns_imp [of tb e r q] by (cases "enqueue_loop tb e r q") auto

lemma InvalidateCache_negative_timebase:
  "InvalidateCache example_env (SetTimebase new_processor (- 1)) 0 0 = None"
proof -
  have "true_start_range (- 1) 0 = Inr 0" by code_simp
  then show ?thesis
    by (simp add: InvalidateCache_def SetTimebase_def new_processor_def
          enqueue_loop_never_returns)
qed

text \<open>
  C1 as stated fails: at the timebase 1/25 the start 29/25 is a point of the grid, so
  the floor in rational arithmetic snaps it to itself; the code's doubles give
  28.999999999999996 for 1.16 * 25 and snap it to 28/25, and the call with the end 29/25
  queues 28/25 as well as 29/25.
\<close>

theorem InvalidateCache_snaps_one_step_low:
  "of_int \<lfloor>(29 / 25) / (1 / 25 :: rat)\<rfloor> * (1 / 25) = (29 / 25 :: rat) \<and>
   map_option (map_sum id cache_queue)
     (InvalidateCache example_env (SetTimebase new_processor (1 / 25)) (29 / 25) (29 / 25))
     = Some (Inr [28 / 25, 29 / 25])"
  by (simp add: InvalidateCache_def SetTimebase_def new_processor_def true_start_range_29_25
        enqueue_loop_28_29 CacheNext_def)

text \<open>
  C1, as the code has it: with a positive timebase \<open>t\<close>, and \<open>f\<close> the integer that
  \<open>qFloor\<close> gives for the start converted to double, multiplied by the denominator
  of \<open>t\<close> and divided by its numerator in double arithmetic, \<open>InvalidateCache\<close> appends
  to the queue, in increasing order, the points \<open>f * t\<close>, \<open>f * t + t\<close>, ... not after the
  end that are not yet queued, each once, and then calls \<open>CacheNext\<close>. The snap is a
  multiple of the timebase computed in floating point, not in rational arithmetic.
\<close>

theorem InvalidateCache_enqueues_grid:
  assumes "0 < timebase s"
    and "qFloor (dbl_div (dbl_mul (toDouble start_range)
                  (dbl_of_int (denominator (timebase s))))
               (dbl_of_int (numerator (timebase s)))) = Inr f"
  shows "InvalidateCache env s start_range end_range =
           Some (CacheNext env
             (s\<lparr>cache_queue :=
                  cache_queue s
                    @ filter (\<lambda>r. r \<notin> set (cache_queue s))
                        (grid_points (timebase s) (of_int f * timebase s) end_range)\<rparr>)) \<and>
         set (grid_points (timebase s) (of_int f * timebase s) end_range) =
           {r. \<exists>k::nat. r = of_int f * timebase s + of_nat k * timebase s \<and> r \<le> end_range} \<and>
         distinct (grid_points (timebase s) (of_int f * timebase s) end_range)"
proof -
  let ?tb = "timebase s"
  have nz: "numerator ?tb \<noteq> 0"
  proof
    assume "numerator ?tb = 0"
    with quotient_of_fraction [of ?tb] have "?tb = 0" by simp
    with assms(1) show False by simp
  qed
  have "of_int (f * numerator ?tb) / of_int (denominator ?tb)
        = of_int f * (of_int (numerator ?tb) / of_int (denominator ?tb) :: rat)"
    by simp
  also have "\<dots> = of_int f * ?tb" using quotient_of_fraction [of ?tb] by simp
  finally have r0: "true_start_range ?tb start_range = Inr (of_int f * ?tb)"
    using nz assms(2) by (simp add: true_start_range_def Let_def)
  show ?thesis
    using assms(1) r0
    by (simp add: InvalidateCache_def enqueue_loop_grid set_grid_points distinct_grid_points)
qed

theorem InvalidateCache_enqueues_grid_witness:
  "0 < timebase (SetTimebase new_processor (1 / 24)) \<and>
   qFloor (dbl_div (dbl_mul (toDouble (3 / 100))
             (dbl_of_int (denominator (timebase (SetTimebase new_processor (1 / 24))))))
           (dbl_of_int (numerator (timebase (SetTimebase new_processor (1 / 24)))))) = Inr 0 \<and>
   map_option (map_sum id cache_queue)
     (InvalidateCache example_env (SetTimebase new_processor (1 / 24)) (3 / 100) (9 / 100))
     = Some (Inr [0, 1 / 24, 1 / 12]) \<and>
   set [0, 1 / 24, 1 / 12 :: rat] = {r. \<exists>k::nat. r = 0 + of_nat k * (1 / 24) \<and> r \<le> 9 / 100}"
proof -
  let ?s = "SetTimebase new_processor (1 / 24)"
  have tb: "timebase ?s = 1 / 24" by (simp add: SetTimebase_def)
  have pos: "0 < timebase ?s" by (simp add: tb)
  have q: "qFloor (dbl_div (dbl_mul (toDouble (3 / 100)) (dbl_of_int (denominator (timebase ?s))))
             (dbl_of_int (numerator (timebase ?s)))) = Inr 0"
    unfolding tb by (rule qFloor_3_100)
  have s: "cache_queue ?s = []" "texture_input ?s = None"
    by (simp_all add: SetTimebase_def new_processor_def)
  note t = InvalidateCache_enqueues_grid [OF pos q, of example_env "9 / 100"]
  have 1: "map_option (map_sum id cache_queue) (InvalidateCache example_env ?s (3 / 100) (9 / 100))
     = Some (Inr [0, 1 / 24, 1 / 12])"
    using t s by (simp add: tb grid_points_example CacheNext_def)
  have 2: "set [0, 1 / 24, 1 / 12 :: rat] = {r. \<exists>k::nat. r = 0 + of_nat k * (1 / 24) \<and> r \<le> 9 / 100}"
    using t by (simp add: tb grid_points_example)
  from pos q 1 2 show ?thesis by (intro conjI)
qed

section \<open>Properties of the read path and of the cache identity\<close>

lemma isNull_0: "isNull 0"
  by (simp add: isNull_def numerator_def)

text \<open>
  C7 as stated fails: with the texture input disconnected \<open>Value\<close> returns 0 and logs
  no warning at all.
\<close>

theorem Value_disconnected_logs_nothing:
  "texture_input new_processor = None \<and>
   Value example_env new_processor texture_output 0 = Inr (VInt 0, [], new_processor)"
  by (simp add: Value_def new_processor_def)

text \<open>
  C7, as the code has it: on the texture output, \<open>Value\<close> returns 0 and leaves the
  processor as it is in three cases. When the texture input is not connected it writes
  no warning; when the input is connected and the cache identity is empty it writes the
  warning that there is no cache ID; when the input is connected, the identity is not
  empty and the timebase is null it writes the warning that there is no timebase.
\<close>

theorem Value_early_returns:
  "(texture_input s = None \<longrightarrow>
      Value env s texture_output time = Inr (VInt 0, [], s)) \<and>
   (texture_input s \<noteq> None \<and> cache_id s = [] \<longrightarrow>
      Value env s texture_output time = Inr (VInt 0, [''RendererProcessor has no cache ID''], s)) \<and>
   (texture_input s \<noteq> None \<and> cache_id s \<noteq> [] \<and> isNull (timebase s) \<longrightarrow>
      Value env s texture_output time = Inr (VInt 0, [''RendererProcessor has no timebase''], s))"
  by (simp add: Value_def)

theorem Value_early_returns_witness:
  "texture_input new_processor = None \<and>
   Value example_env new_processor texture_output (1 / 24) = Inr (VInt 0, [], new_processor) \<and>
   texture_input (new_processor\<lparr>texture_input := Some 7\<rparr>) \<noteq> None \<and>
   cache_id (new_processor\<lparr>texture_input := Some 7\<rparr>) = [] \<and>
   Value example_env (new_processor\<lparr>texture_input := Some 7\<rparr>) texture_output (1 / 24)
     = Inr (VInt 0, [''RendererProcessor has no cache ID''],
            new_processor\<lparr>texture_input := Some 7\<rparr>) \<and>
   texture_input (new_processor\<lparr>texture_input := Some 7, cache_id := ''0a''\<rparr>) \<noteq> None \<and>
   cache_id (new_processor\<lparr>texture_input := Some 7, cache_id := ''0a''\<rparr>) \<noteq> [] \<and>
   isNull (timebase (new_processor\<lparr>texture_input := Some 7, cache_id := ''0a''\<rparr>)) \<and>
   Value example_env (new_processor\<lparr>texture_input := Some 7, cache_id := ''0a''\<rparr>)
       texture_output (1 / 24)
     = Inr (VInt 0, [''RendererProcessor has no timebase''],
            new_processor\<lparr>texture_input := Some 7, cache_id := ''0a''\<rparr>)"
proof -
  have n: "isNull (timebase (new_processor\<lparr>texture_input := Some 7, cache_id := ''0a''\<rparr>))"
    by (simp add: new_processor_def isNull_0)
  show ?thesis
    using Value_early_returns [of new_processor example_env "1 / 24"]
      Value_early_returns [of "new_processor\<lparr>texture_input := Some 7\<rparr>" example_env "1 / 24"]
      Value_early_returns [of "new_processor\<lparr>texture_input := Some 7, cache_id := ''0a''\<rparr>"
        example_env "1 / 24"] n
    by (simp add: new_processor_def)
qed

lemma length_sha1_out: "length (sha1_out h) = 20"
  by (cases h) (simp add: upt_rec_numeral)

lemma length_sha1: "length (sha1 msg) = 20"
  by (simp add: sha1_def length_sha1_out)

lemma length_toHex: "length (toHex bs) = 2 * length bs"
  by (induction bs) (simp_all add: toHex_def)

lemma toHex_sha1_nonempty: "toHex (sha1 msg) \<noteq> []"
proof
  assume "toHex (sha1 msg) = []"
  then have "length (toHex (sha1 msg)) = 0" by simp
  then show False by (simp add: length_toHex length_sha1)
qed

text \<open>
  C6 as stated fails: once an identity has been generated, a call with an empty cache
  name returns with that identity still in place, not with an empty one.
\<close>

theorem GenerateCacheIDInternal_keeps_stale_identity:
  "\<not> isl (SetParameters new_processor 1920 1080 0 0 1) \<and>
   cache_name (SetCacheName
      (SetCacheName (projr (SetParameters new_processor 1920 1080 0 0 1)) ''seq'' 1000) [] 2000) = [] \<and>
   cache_id (SetCacheName
      (SetCacheName (projr (SetParameters new_processor 1920 1080 0 0 1)) ''seq'' 1000) [] 2000) \<noteq> []"
  by (simp add: SetParameters_def Stop_def new_processor_def CalculateEffectiveDimensions_def
        cpp_div_def GenerateCacheIDInternal_def SetCacheName_def toHex_sha1_nonempty Let_def)

text \<open>
  C6, as the code has it: when the cache name is empty or an effective dimension is
  zero, \<open>GenerateCacheIDInternal\<close> changes nothing of the processor; the cache identity
  stays what it was, which is empty when none was generated before.
\<close>

theorem GenerateCacheIDInternal_disabled:
  "cache_name s = [] \<or> effective_width s = 0 \<or> effective_height s = 0 \<Longrightarrow>
   GenerateCacheIDInternal s = s"
  by (auto simp: GenerateCacheIDInternal_def)

theorem GenerateCacheIDInternal_disabled_witness:
  "(cache_name new_processor = [] \<or> effective_width new_processor = 0 \<or>
      effective_height new_processor = 0) \<and>
   GenerateCacheIDInternal new_processor = new_processor \<and>
   cache_id (GenerateCacheIDInternal new_processor) = []"
  using GenerateCacheIDInternal_disabled [of new_processor]
  by (simp add: new_processor_def)

section \<open>Properties of parameter changes\<close>






lemma GenerateCacheIDInternal_started: "started (GenerateCacheIDInternal s) = started s"
  by (simp add: GenerateCacheIDInternal_def)


















section \<open>Properties of ProjectSaveManager\<close>

text \<open>
  C10: \<open>ProjectSaveManager::Action\<close> emits \<open>Succeeded\<close> exactly once on every call, also
  when the project file cannot be opened for writing; then nothing is written (the file
  system is as before) and success is reported all the same.
\<close>

theorem Action_always_succeeds:
  "snd (Action project can_open fs) = [Succeeded] \<and>
   (\<not> can_open (filename project) \<longrightarrow> fst (Action project can_open fs) = fs)"
  by (simp add: Action_def Let_def)

theorem Action_always_succeeds_witness:
  "\<not> (\<lambda>f. False) (filename \<lparr>filename = ''/ro/p.ove'', save_events = [StartElement ''project'', EndElement]\<rparr>) \<and>
   snd (Action \<lparr>filename = ''/ro/p.ove'', save_events = [StartElement ''project'', EndElement]\<rparr>
          (\<lambda>f. False) Map.empty) = [Succeeded] \<and>
   fst (Action \<lparr>filename = ''/ro/p.ove'', save_events = [StartElement ''project'', EndElement]\<rparr>
          (\<lambda>f. False) Map.empty) = Map.empty"
  using Action_always_succeeds
    [of "\<lparr>filename = ''/ro/p.ove'', save_events = [StartElement ''project'', EndElement]\<rparr>"
        "\<lambda>f. False" Map.empty]
  by simp

end
